theory Spec2Isabelle
  imports Main "HOL-Library.Word" "HOL-Library.Signed_Division"
begin

section \<open>The BFS user file-system API (fs.c): data model\<close>

text \<open>
  The functions of \<^verbatim>\<open>fs.c\<close> that work on open files, \<^verbatim>\<open>fsRead\<close>, \<^verbatim>\<open>fsWrite\<close>,
  \<^verbatim>\<open>fsSeek\<close>, \<^verbatim>\<open>fsTell\<close>, \<^verbatim>\<open>fsSize\<close>, \<^verbatim>\<open>fsClose\<close>, \<^verbatim>\<open>fsOpen\<close> and \<^verbatim>\<open>fsCreate\<close>, are
  embedded as HOL functions over an explicit file-system state (\<^verbatim>\<open>fsFormat\<close> and
  \<^verbatim>\<open>fsMount\<close> only set up the disk and are left out). An \<^verbatim>\<open>i32\<close> argument or local is
  an \<^typ>\<open>int\<close>. The cursor that the open file table keeps between the calls is a
  \<^typ>\<open>32 word\<close> read back with \<^const>\<open>sint\<close>, and the sums that \<^verbatim>\<open>fsSeek\<close> and \<^verbatim>\<open>fsRead\<close>
  form with it are reduced to 32 bits: C leaves their overflow undefined, and the
  compiled code wraps around. The sums of \<^verbatim>\<open>fsWrite\<close> are exact: they leave the range
  of an \<^verbatim>\<open>i32\<close> only for a write that ends beyond byte \<open>2\<^sup>3\<^sup>1 - 1\<close> of its file. C's \<^verbatim>\<open>/\<close>
  and \<^verbatim>\<open>%\<close> truncate towards zero and are \<open>sdiv\<close> and \<open>smod\<close>. The narrow variable of
  \<^verbatim>\<open>fsWrite\<close>, \<^verbatim>\<open>i8 len\<close>, is an \<^typ>\<open>8 word\<close> read back with \<^const>\<open>sint\<close>. A call of \<^verbatim>\<open>FATAL\<close>
  (which ends the process), and a copy outside a buffer or a variable-length array of
  non-positive size (both undefined in C), is an error value.
\<close>

type_synonym byte = "8 word"
type_synonym block = "byte list"

datatype error =
    EBADCURS      \<comment> \<open>\<^verbatim>\<open>FATAL(EBADCURS)\<close> in \<^verbatim>\<open>fsSeek\<close>\<close>
  | EBADWHENCE    \<comment> \<open>\<^verbatim>\<open>FATAL(EBADWHENCE)\<close> in \<^verbatim>\<open>fsSeek\<close>\<close>
  | ENOBLOCK      \<comment> \<open>a block transfer on a file block number that is not allocated\<close>
  | ENOSPACE      \<comment> \<open>the allocator has no free block left\<close>
  | EBADVLA       \<comment> \<open>undefined: a variable-length array whose size is not positive\<close>
  | EOVERRUN      \<comment> \<open>undefined: \<^verbatim>\<open>memcpy\<close> outside the source or the destination\<close>

text \<open>
  The state the API works on. \<open>inumOfFd\<close> is the descriptor table read by
  \<^verbatim>\<open>bfsFdToInum\<close>, \<open>ofteOf\<close> the slot found by \<^verbatim>\<open>bfsFindOFTE\<close>, \<open>g_oft\<close> the \<^verbatim>\<open>curs\<close> field
  of each slot of the open file table, \<open>isize\<close> the size stored in each inode,
  \<open>fblocks\<close> the blocks allocated to each file in file-block-number order and
  \<open>freeBlocks\<close> the free blocks of the device with whatever they still contain.
  The last four fields are read and written by \<^verbatim>\<open>fsOpen\<close>, \<^verbatim>\<open>fsCreate\<close> and \<^verbatim>\<open>fsClose\<close>
  only: \<open>fdOfInum\<close> is the descriptor table read in the other direction, \<open>oftRefs\<close> the
  reference count of each slot of the open file table, \<open>dirInum\<close> the directory and
  \<open>freeInums\<close> the inodes that no file uses.
\<close>

record bfs =
  inumOfFd :: "int \<Rightarrow> int"
  ofteOf :: "int \<Rightarrow> int"
  g_oft :: "int \<Rightarrow> 32 word"
  isize :: "int \<Rightarrow> int"
  fblocks :: "int \<Rightarrow> block list"
  freeBlocks :: "block list"
  fdOfInum :: "int \<Rightarrow> int"
  oftRefs :: "int \<Rightarrow> int"
  dirInum :: "string \<Rightarrow> int option"
  freeInums :: "int list"

text \<open>
  Modelled from the spec: \<^verbatim>\<open>bfs.h\<close> is not part of the sources, so the block width is
  the one the spec's example uses (``block size 512'').
\<close>

definition BYTESPERBLOCK :: int where
  "BYTESPERBLOCK = 512"

text \<open>The \<^verbatim>\<open>whence\<close> values of \<^verbatim>\<open>stdio.h\<close>.\<close>

definition SEEK_SET :: int where "SEEK_SET = 0"
definition SEEK_CUR :: int where "SEEK_CUR = 1"
definition SEEK_END :: int where "SEEK_END = 2"


text \<open>
  The value an \<^verbatim>\<open>i32\<close> holds after an integer is stored in it: the integer reduced to 32
  bits and read back signed. It is the integer itself between \<open>- 2\<^sup>3\<^sup>1\<close> and
  \<open>2\<^sup>3\<^sup>1 - 1\<close>.
\<close>

definition i32 :: "int \<Rightarrow> int" where
  "i32 x = sint (word_of_int x :: 32 word)"

section \<open>The collaborators of fs.c\<close>

text \<open>
  The functions of \<^verbatim>\<open>bfs.c\<close> and \<^verbatim>\<open>bio.c\<close> that \<^verbatim>\<open>fs.c\<close> calls are not part of the
  sources. Each is modelled from its contract in the spec's section on external
  interfaces. A device block number is the pair of the file and the position of the block
  in it, so distinct file blocks never share a device block.
\<close>

text \<open>
  Modelled from the spec: \<^verbatim>\<open>bfsFdToInum\<close> is missing; it is \<open>resolveDescriptor(fd) -> inodeId\<close>,
  a lookup.
\<close>

definition bfsFdToInum :: "bfs \<Rightarrow> int \<Rightarrow> int" where
  "bfsFdToInum s fd = inumOfFd s fd"

text \<open>
  Modelled from the spec: \<^verbatim>\<open>bfsFindOFTE\<close> is missing; it is \<open>lookupOpenSlot(inodeId) -> slotRef\<close>
  for a file that is open.
\<close>

definition bfsFindOFTE :: "bfs \<Rightarrow> int \<Rightarrow> int" where
  "bfsFindOFTE s inum = ofteOf s inum"

text \<open>
  Modelled from the spec: \<^verbatim>\<open>bfsTell\<close> is missing; it is \<open>getCursor(fd) -> offset\<close>, the
  cursor field of the slot of the descriptor.
\<close>

definition bfsTell :: "bfs \<Rightarrow> int \<Rightarrow> int" where
  "bfsTell s fd = sint (g_oft s (bfsFindOFTE s (bfsFdToInum s fd)))"

text \<open>Modelled from the spec: \<^verbatim>\<open>bfsGetSize\<close> is missing; it is \<open>getSize(inodeId) -> bytes\<close>.\<close>

definition bfsGetSize :: "bfs \<Rightarrow> int \<Rightarrow> int" where
  "bfsGetSize s inum = isize s inum"

text \<open>Modelled from the spec: \<^verbatim>\<open>bfsSetSize\<close> is missing; it is \<open>setSize(inodeId, bytes)\<close>.\<close>

definition bfsSetSize :: "bfs \<Rightarrow> int \<Rightarrow> int \<Rightarrow> bfs" where
  "bfsSetSize s inum n = s\<lparr>isize := (isize s)(inum := n)\<rparr>"

text \<open>
  Modelled from the spec: \<^verbatim>\<open>bfsExtend\<close> is missing; it is \<open>extend(inodeId, uptoFbn)\<close>, which
  ``ensures blocks 0..uptoFbn are allocated for the file; may fail if storage is
  exhausted''. The blocks the file lacks are taken from the head of the free list, with
  their content as it is.
\<close>

definition bfsExtend :: "bfs \<Rightarrow> int \<Rightarrow> int \<Rightarrow> error + bfs" where
  "bfsExtend s inum fbn =
     (let need = nat (fbn + 1) - length (fblocks s inum)
      in if need \<le> length (freeBlocks s)
         then Inr (s\<lparr>fblocks := (fblocks s)(inum := fblocks s inum @ take need (freeBlocks s)),
                     freeBlocks := drop need (freeBlocks s)\<rparr>)
         else Inl ENOSPACE)"

text \<open>
  Modelled from the spec: \<^verbatim>\<open>bfsFbnToDbn\<close> is missing; it is
  \<open>resolveBlock(inodeId, fbn) -> deviceBlockId\<close>. A file block number that is not allocated
  has no device block, which is an error here.
\<close>

definition bfsFbnToDbn :: "bfs \<Rightarrow> int \<Rightarrow> int \<Rightarrow> error + (int \<times> nat)" where
  "bfsFbnToDbn s inum fbn =
     (if 0 \<le> fbn \<and> nat fbn < length (fblocks s inum) then Inr (inum, nat fbn)
      else Inl ENOBLOCK)"

text \<open>
  Modelled from the spec: \<^verbatim>\<open>bioRead\<close> is missing; it is \<open>readBlock(deviceBlockId, outBuffer)\<close>,
  a ``whole fixed-size block transfer'' from the device.
\<close>

definition bioRead :: "bfs \<Rightarrow> int \<times> nat \<Rightarrow> block" where
  "bioRead s dbn = fblocks s (fst dbn) ! snd dbn"

text \<open>
  Modelled from the spec: \<^verbatim>\<open>bioWrite\<close> is missing; it is \<open>writeBlock(deviceBlockId, inBuffer)\<close>,
  a ``whole fixed-size block transfer'' to the device.
\<close>

definition bioWrite :: "bfs \<Rightarrow> int \<times> nat \<Rightarrow> block \<Rightarrow> bfs" where
  "bioWrite s dbn b =
     s\<lparr>fblocks := (fblocks s)(fst dbn := (fblocks s (fst dbn))[snd dbn := b])\<rparr>"

text \<open>
  Modelled from the spec: \<^verbatim>\<open>bfsRead\<close> is missing; it reads the block of a file at a file
  block number, \<open>resolveBlock\<close> followed by \<open>readBlock\<close>.
\<close>

definition bfsRead :: "bfs \<Rightarrow> int \<Rightarrow> int \<Rightarrow> error + block" where
  "bfsRead s inum fbn =
     (case bfsFbnToDbn s inum fbn of
        Inl e \<Rightarrow> Inl e
      | Inr dbn \<Rightarrow> Inr (bioRead s dbn))"





text \<open>
  \<^verbatim>\<open>memcpy(dst + doff, src + soff, n)\<close> on buffers whose extent is the length of the
  list. The count is a \<^verbatim>\<open>size_t\<close>, so a negative \<^verbatim>\<open>i32\<close> count is larger than any buffer.
\<close>

definition memcpy :: "byte list \<Rightarrow> int \<Rightarrow> byte list \<Rightarrow> int \<Rightarrow> int \<Rightarrow> error + byte list" where
  "memcpy dst doff src soff n =
     (if n < 0 \<or> doff < 0 \<or> soff < 0
         \<or> int (length dst) < doff + n \<or> int (length src) < soff + n
      then Inl EOVERRUN
      else Inr (take (nat doff) dst @ take (nat n) (drop (nat soff) src)
                @ drop (nat (doff + n)) dst))"

section \<open>fsSeek, fsTell, fsSize\<close>

definition fsSize :: "bfs \<Rightarrow> int \<Rightarrow> int" where
  "fsSize s fd = bfsGetSize s (bfsFdToInum s fd)"

definition fsTell :: "bfs \<Rightarrow> int \<Rightarrow> int" where
  "fsTell s fd = bfsTell s fd"

definition fsSeek :: "bfs \<Rightarrow> int \<Rightarrow> int \<Rightarrow> int \<Rightarrow> error + (bfs \<times> int)" where
  "fsSeek s fd offset whence =
     (if offset < 0 then Inl EBADCURS
      else
        let inum = bfsFdToInum s fd;
            ofte = bfsFindOFTE s inum
        in if whence = SEEK_SET then
             Inr (s\<lparr>g_oft := (g_oft s)(ofte := word_of_int offset)\<rparr>, 0)
           else if whence = SEEK_CUR then
             Inr (s\<lparr>g_oft := (g_oft s)(ofte := g_oft s ofte + word_of_int offset)\<rparr>, 0)
           else if whence = SEEK_END then
             (let end = fsSize s fd
              in Inr (s\<lparr>g_oft := (g_oft s)(ofte := word_of_int (end + offset))\<rparr>, 0))
           else Inl EBADWHENCE)"




section \<open>fsRead\<close>

text \<open>
  The loop of the multi-block path, \<^verbatim>\<open>for (i = left; i <= right; i++)\<close>, with the
  caller's buffer and the running \<^verbatim>\<open>offset\<close> as its state; it returns both.
\<close>

function readLoop ::
  "bfs \<Rightarrow> int \<Rightarrow> int \<Rightarrow> int \<Rightarrow> int \<Rightarrow> int \<Rightarrow> int \<Rightarrow> byte list \<Rightarrow> int \<Rightarrow> error + (byte list \<times> int)"
where
  "readLoop s currInum currCursor numb left right i buf offset =
     (if i \<le> right then
        (case bfsRead s currInum i of
           Inl e \<Rightarrow> Inl e
         | Inr tempBuf \<Rightarrow>
             let startOffset = (if i = left then currCursor smod BYTESPERBLOCK else 0);
                 bytesToCopy0 = (if i = left then BYTESPERBLOCK - startOffset else BYTESPERBLOCK);
                 bytesToCopy = (if i = right \<and> numb smod BYTESPERBLOCK \<noteq> 0
                                then numb smod BYTESPERBLOCK else bytesToCopy0)
             in (case memcpy buf offset tempBuf startOffset bytesToCopy of
                   Inl e \<Rightarrow> Inl e
                 | Inr buf' \<Rightarrow>
                     readLoop s currInum currCursor numb left right (i + 1) buf'
                       (offset + bytesToCopy)))
      else Inr (buf, offset))"
  by pat_completeness auto
termination
  by (relation "measure (\<lambda>(s, currInum, currCursor, numb, left, right, i, buf, offset).
        nat (right + 1 - i))") auto

text \<open>
  \<^verbatim>\<open>fsRead\<close> up to its final \<^verbatim>\<open>fsSeek\<close>: the buffer after the copies, the number of bytes
  the \<^verbatim>\<open>memcpy\<close> calls deposited in it, and the clamped \<^verbatim>\<open>numb\<close>.
\<close>

definition fsRead_copy :: "bfs \<Rightarrow> int \<Rightarrow> int \<Rightarrow> byte list \<Rightarrow> error + (byte list \<times> int \<times> int)" where
  "fsRead_copy s fd numb0 buf =
     (let currInum = bfsFdToInum s fd;
          currCursor = bfsTell s fd;
          left = currCursor sdiv BYTESPERBLOCK;
          right0 = i32 (currCursor + numb0) sdiv BYTESPERBLOCK;
          fileSize = bfsGetSize s currInum;
          numb = (if i32 (numb0 + currCursor) > fileSize then i32 (fileSize - currCursor)
                  else numb0);
          right = (if i32 (numb0 + currCursor) > fileSize
                   then i32 (currCursor + numb) sdiv BYTESPERBLOCK else right0)
      in if left = right then
           (case bfsRead s currInum left of
              Inl e \<Rightarrow> Inl e
            | Inr tempBuf \<Rightarrow>
                let startOffset = currCursor smod BYTESPERBLOCK
                in (case memcpy buf 0 tempBuf startOffset numb of
                      Inl e \<Rightarrow> Inl e
                    | Inr buf' \<Rightarrow> Inr (buf', numb, numb)))
         else
           (case readLoop s currInum currCursor numb left right left buf 0 of
              Inl e \<Rightarrow> Inl e
            | Inr (buf', offset) \<Rightarrow> Inr (buf', offset, numb)))"

definition fsRead :: "bfs \<Rightarrow> int \<Rightarrow> int \<Rightarrow> byte list \<Rightarrow> error + (bfs \<times> byte list \<times> int)" where
  "fsRead s fd numb0 buf =
     (case fsRead_copy s fd numb0 buf of
        Inl e \<Rightarrow> Inl e
      | Inr (buf', copied, numb) \<Rightarrow>
          (case fsSeek s fd numb SEEK_CUR of
             Inl e \<Rightarrow> Inl e
           | Inr (s', r) \<Rightarrow> Inr (s', buf', numb)))"

section \<open>fsWrite\<close>

text \<open>
  The write-back loop, \<^verbatim>\<open>for (i = left; i <= right; i++)\<close>, with the running
  \<^verbatim>\<open>offset\<close> into the staging region; \<^verbatim>\<open>tempBuf\<close> is a fresh block of
  \<^verbatim>\<open>BYTESPERBLOCK\<close> bytes.
\<close>

function writeLoop ::
  "bfs \<Rightarrow> int \<Rightarrow> int \<Rightarrow> int \<Rightarrow> byte list \<Rightarrow> int \<Rightarrow> error + bfs"
where
  "writeLoop s currInum right i simulatedMem offset =
     (if i \<le> right then
        (case memcpy (replicate (nat BYTESPERBLOCK) 0) 0 simulatedMem offset BYTESPERBLOCK of
           Inl e \<Rightarrow> Inl e
         | Inr tempBuf \<Rightarrow>
             (case bfsFbnToDbn s currInum i of
                Inl e \<Rightarrow> Inl e
              | Inr dbn \<Rightarrow>
                  writeLoop (bioWrite s dbn tempBuf) currInum right (i + 1) simulatedMem
                    (offset + BYTESPERBLOCK)))
      else Inr s)"
  by pat_completeness auto
termination
  by (relation "measure (\<lambda>(s, currInum, right, i, simulatedMem, offset).
        nat (right + 1 - i))") auto

text \<open>
  The staging region \<^verbatim>\<open>i8 simulatedMem[len * BYTESPERBLOCK]\<close> with \<^verbatim>\<open>i8 len\<close>: the span
  \<^verbatim>\<open>right - left + 1\<close> is narrowed to eight bits and read back signed.
\<close>

definition stagingLen :: "int \<Rightarrow> int \<Rightarrow> int" where
  "stagingLen left right = sint (word_of_int (right - left + 1) :: 8 word)"

text \<open>Lines 221--225: the file grows when the write ends past its size.\<close>

definition fsWrite_grow :: "bfs \<Rightarrow> int \<Rightarrow> int \<Rightarrow> int \<Rightarrow> int \<Rightarrow> error + bfs" where
  "fsWrite_grow s currInum currCursor numb right =
     (if currCursor + numb > bfsGetSize s currInum then
        (case bfsExtend s currInum right of
           Inl e \<Rightarrow> Inl e
         | Inr s' \<Rightarrow> Inr (bfsSetSize s' currInum (currCursor + numb)))
      else Inr s)"

text \<open>
  Lines 227--239: the staging region is declared, the first and (when \<^verbatim>\<open>len > 1\<close>) the
  last block are read into it, and the caller's bytes are copied over it.
\<close>

definition fsWrite_stage ::
  "bfs \<Rightarrow> int \<Rightarrow> int \<Rightarrow> int \<Rightarrow> int \<Rightarrow> int \<Rightarrow> byte list \<Rightarrow> error + byte list" where
  "fsWrite_stage s currInum currCursor left right numb buf =
     (let len = stagingLen left right
      in if len * BYTESPERBLOCK \<le> 0 then Inl EBADVLA
         else
           (let simulatedMem = replicate (nat (len * BYTESPERBLOCK)) (0 :: byte)
            in (case bfsRead s currInum left of
                  Inl e \<Rightarrow> Inl e
                | Inr b0 \<Rightarrow>
                    (case memcpy simulatedMem 0 b0 0 BYTESPERBLOCK of
                       Inl e \<Rightarrow> Inl e
                     | Inr sim1 \<Rightarrow>
                         (case (if len > 1 then
                                  (case bfsRead s currInum right of
                                     Inl e \<Rightarrow> Inl e
                                   | Inr b1 \<Rightarrow>
                                       memcpy sim1 ((len - 1) * BYTESPERBLOCK) b1 0 BYTESPERBLOCK)
                                else Inr sim1) of
                            Inl e \<Rightarrow> Inl e
                          | Inr sim2 \<Rightarrow>
                              memcpy sim2 (currCursor smod BYTESPERBLOCK) buf 0 numb)))))"

definition fsWrite :: "bfs \<Rightarrow> int \<Rightarrow> int \<Rightarrow> byte list \<Rightarrow> error + (bfs \<times> int)" where
  "fsWrite s fd numb buf =
     (let currInum = bfsFdToInum s fd;
          currCursor = bfsTell s fd;
          left = currCursor sdiv BYTESPERBLOCK;
          right = (currCursor + numb) sdiv BYTESPERBLOCK
      in (case fsWrite_grow s currInum currCursor numb right of
            Inl e \<Rightarrow> Inl e
          | Inr s1 \<Rightarrow>
              (case fsWrite_stage s1 currInum currCursor left right numb buf of
                 Inl e \<Rightarrow> Inl e
               | Inr sim \<Rightarrow>
                   (case writeLoop s1 currInum right left sim 0 of
                      Inl e \<Rightarrow> Inl e
                    | Inr s2 \<Rightarrow>
                        (case fsSeek s2 fd numb SEEK_CUR of
                           Inl e \<Rightarrow> Inl e
                         | Inr (s3, r) \<Rightarrow> Inr (s3, 0))))))"

section \<open>Observations and preconditions used by the properties\<close>

text \<open>
  The byte of a file at byte position \<open>p\<close>, read through the block map: block
  \<open>p div BYTESPERBLOCK\<close>, offset \<open>p mod BYTESPERBLOCK\<close>; \<open>None\<close> where no block is
  allocated.
\<close>

definition fileByte :: "bfs \<Rightarrow> int \<Rightarrow> int \<Rightarrow> byte option" where
  "fileByte s inum p =
     (if 0 \<le> p \<and> nat (p div BYTESPERBLOCK) < length (fblocks s inum)
         \<and> nat (p mod BYTESPERBLOCK) < length (fblocks s inum ! nat (p div BYTESPERBLOCK))
      then Some (fblocks s inum ! nat (p div BYTESPERBLOCK) ! nat (p mod BYTESPERBLOCK))
      else None)"

text \<open>Every block of the list is a whole block of \<^verbatim>\<open>BYTESPERBLOCK\<close> bytes.\<close>

definition wholeBlocks :: "block list \<Rightarrow> bool" where
  "wholeBlocks bs = list_all (\<lambda>b. int (length b) = BYTESPERBLOCK) bs"

text \<open>
  A sufficient condition for \<^verbatim>\<open>fsWrite\<close> to run to its \<^verbatim>\<open>return\<close>: a cursor and a count
  that are not negative, a caller's buffer of at least \<open>numb\<close> bytes, a span of at most
  127 blocks, blocks of the right width, and either enough free blocks for the extension
  or, without extension, an allocated last block.
\<close>

definition write_ok :: "bfs \<Rightarrow> int \<Rightarrow> int \<Rightarrow> byte list \<Rightarrow> bool" where
  "write_ok s fd numb buf =
     (let inum = bfsFdToInum s fd;
          c = bfsTell s fd;
          left = c div BYTESPERBLOCK;
          right = (c + numb) div BYTESPERBLOCK;
          need = nat (right + 1) - length (fblocks s inum)
      in 0 \<le> c \<and> 0 \<le> numb \<and> numb \<le> int (length buf) \<and> right - left < 127
         \<and> (if bfsGetSize s inum < c + numb then need \<le> length (freeBlocks s)
             else right < int (length (fblocks s inum)))
         \<and> wholeBlocks (fblocks s inum)
         \<and> wholeBlocks (take need (freeBlocks s)))"

text \<open>
  An example state: descriptor \<open>fd\<close> is bound to inode \<open>fd\<close> and to slot \<open>fd\<close> of the
  open file table, every file is empty with its cursor at 0, and the device has \<open>n\<close> free
  blocks that still hold the byte \<open>0xAA\<close>. Every slot is referred to once, the directory
  holds no name and no inode is free.
\<close>

definition emptyFs :: "nat \<Rightarrow> bfs" where
  "emptyFs n =
     \<lparr>inumOfFd = (\<lambda>fd. fd), ofteOf = (\<lambda>inum. inum), g_oft = (\<lambda>ofte. 0),
      isize = (\<lambda>inum. 0), fblocks = (\<lambda>inum. []),
      freeBlocks = replicate n (replicate 512 170),
      fdOfInum = (\<lambda>inum. inum), oftRefs = (\<lambda>ofte. 1), dirInum = (\<lambda>fname. None),
      freeInums = []\<rparr>"

text \<open>The value \<^verbatim>\<open>fsWrite\<close> returns to its caller; \<open>None\<close> when the call does not return.\<close>

definition fsWrite_returned :: "bfs \<Rightarrow> int \<Rightarrow> int \<Rightarrow> byte list \<Rightarrow> int option" where
  "fsWrite_returned s fd numb buf =
     (case fsWrite s fd numb buf of Inl e \<Rightarrow> None | Inr (s', r) \<Rightarrow> Some r)"

text \<open>
  A file system in which every file has the given cursor, size and blocks, and no block
  is free; the other tables are those of \<open>emptyFs\<close>.
\<close>

definition uniformFs :: "32 word \<Rightarrow> int \<Rightarrow> block list \<Rightarrow> bfs" where
  "uniformFs c sz bs =
     \<lparr>inumOfFd = (\<lambda>fd. fd), ofteOf = (\<lambda>inum. inum), g_oft = (\<lambda>ofte. c),
      isize = (\<lambda>inum. sz), fblocks = (\<lambda>inum. bs), freeBlocks = [],
      fdOfInum = (\<lambda>inum. inum), oftRefs = (\<lambda>ofte. 1), dirInum = (\<lambda>fname. None),
      freeInums = []\<rparr>"


text \<open>
  The states of the example runs below, all on descriptor 3: \<open>emptyFs 2\<close> after
  \<^verbatim>\<open>fsWrite(3, 512, buf)\<close> with 512 bytes \<open>7\<close>; \<open>emptyFs 2\<close> after a seek to 100 and
  \<^verbatim>\<open>fsWrite(3, 612, buf)\<close> with 612 bytes \<open>7\<close>; \<open>emptyFs 2\<close> after
  \<^verbatim>\<open>fsWrite(3, 600, buf)\<close> with 600 bytes \<open>1\<close>.
\<close>

definition written512 :: bfs where
  "written512 =
     \<lparr>inumOfFd = (\<lambda>fd. fd), ofteOf = (\<lambda>inum. inum), g_oft = (\<lambda>ofte. 0)(3 := 512),
      isize = (\<lambda>inum. 0)(3 := 512),
      fblocks = (\<lambda>inum. [])(3 := [replicate 512 7, replicate 512 170]),
      freeBlocks = [],
      fdOfInum = (\<lambda>inum. inum), oftRefs = (\<lambda>ofte. 1), dirInum = (\<lambda>fname. None),
      freeInums = []\<rparr>"

definition written712 :: bfs where
  "written712 =
     \<lparr>inumOfFd = (\<lambda>fd. fd), ofteOf = (\<lambda>inum. inum), g_oft = (\<lambda>ofte. 0)(3 := 712),
      isize = (\<lambda>inum. 0)(3 := 712),
      fblocks = (\<lambda>inum. [])(3 := [replicate 100 170 @ replicate 412 7,
                                   replicate 200 7 @ replicate 312 170]),
      freeBlocks = [],
      fdOfInum = (\<lambda>inum. inum), oftRefs = (\<lambda>ofte. 1), dirInum = (\<lambda>fname. None),
      freeInums = []\<rparr>"

definition written600 :: bfs where
  "written600 =
     \<lparr>inumOfFd = (\<lambda>fd. fd), ofteOf = (\<lambda>inum. inum), g_oft = (\<lambda>ofte. 0)(3 := 600),
      isize = (\<lambda>inum. 0)(3 := 600),
      fblocks = (\<lambda>inum. [])(3 := [replicate 512 1, replicate 88 1 @ replicate 424 170]),
      freeBlocks = [],
      fdOfInum = (\<lambda>inum. inum), oftRefs = (\<lambda>ofte. 1), dirInum = (\<lambda>fname. None),
      freeInums = []\<rparr>"

section \<open>Arithmetic, memcpy and fsSeek\<close>

declare readLoop.simps [simp del] writeLoop.simps [simp del]

lemma B_pos: "0 < BYTESPERBLOCK"
  by (simp add: BYTESPERBLOCK_def)

lemma sdiv_nonneg: "0 \<le> a \<Longrightarrow> a sdiv BYTESPERBLOCK = a div BYTESPERBLOCK"
  using B_pos by (simp add: signed_divide_int_def sgn_if)

lemma smod_nonneg: "0 \<le> a \<Longrightarrow> a smod BYTESPERBLOCK = a mod BYTESPERBLOCK"
  using B_pos by (simp add: signed_modulo_int_def sgn_if)

lemma memcpy_Inr_iff:
  "memcpy dst doff src soff n = Inr r \<longleftrightarrow>
     0 \<le> n \<and> 0 \<le> doff \<and> 0 \<le> soff \<and> doff + n \<le> int (length dst) \<and> soff + n \<le> int (length src)
     \<and> r = take (nat doff) dst @ take (nat n) (drop (nat soff) src) @ drop (nat (doff + n)) dst"
  by (auto simp: memcpy_def)

lemma memcpy_length: "memcpy dst doff src soff n = Inr r \<Longrightarrow> length r = length dst"
  by (auto simp: memcpy_Inr_iff)

lemma memcpy_nth:
  assumes "memcpy dst doff src soff n = Inr r" and "k < length dst"
  shows "r ! k = (if nat doff \<le> k \<and> k < nat (doff + n) then src ! (nat soff + (k - nat doff)) else dst ! k)"
proof -
  define A where "A = take (nat doff) dst"
  define M where "M = take (nat n) (drop (nat soff) src)"
  define Z where "Z = drop (nat doff + nat n) dst"
  from assms(1) have h: "0 \<le> n" "0 \<le> doff" "0 \<le> soff" "doff + n \<le> int (length dst)"
      "soff + n \<le> int (length src)"
    by (simp_all add: memcpy_Inr_iff)
  have e: "nat (doff + n) = nat doff + nat n" using h by (simp add: nat_add_distrib)
  have r: "r = A @ M @ Z"
    using assms(1) by (simp add: memcpy_Inr_iff A_def M_def Z_def e)
  have d: "nat doff + nat n \<le> length dst" "nat soff + nat n \<le> length src"
    using h by linarith+
  have lenA: "length A = nat doff" using d by (simp add: A_def)
  have lenM: "length M = nat n" using d by (simp add: M_def)
  show ?thesis
  proof (cases "k < nat doff")
    case True
    then have "r ! k = A ! k" by (simp add: r nth_append lenA)
    also have "\<dots> = dst ! k" using True by (simp add: A_def)
    finally show ?thesis using True by simp
  next
    case False
    note nk = this
    show ?thesis
    proof (cases "k < nat doff + nat n")
      case True
      have k1: "k - nat doff < nat n" using True nk by arith
      have "r ! k = (M @ Z) ! (k - nat doff)" using nk by (simp add: r nth_append lenA)
      also have "\<dots> = M ! (k - nat doff)" using k1 by (simp add: nth_append lenM)
      also have "\<dots> = src ! (nat soff + (k - nat doff))"
        using k1 d by (simp add: M_def)
      finally show ?thesis using True nk by (simp add: e)
    next
      case False
      have k1: "\<not> k - nat doff < nat n" using False nk by arith
      have k2: "nat doff + nat n + (k - nat doff - nat n) = k" using False nk by arith
      have "r ! k = (M @ Z) ! (k - nat doff)" using nk by (simp add: r nth_append lenA)
      also have "\<dots> = Z ! (k - nat doff - nat n)" using k1 by (simp add: nth_append lenM)
      also have "\<dots> = dst ! k"
        using d assms(2) k2 by (simp add: Z_def)
      finally show ?thesis using False nk by (simp add: e)
    qed
  qed
qed

lemma fsSeek_Inr:
  assumes "fsSeek s fd offset whence = Inr (s', r)"
  shows "r = 0" "isize s' = isize s" "fblocks s' = fblocks s" "freeBlocks s' = freeBlocks s"
    "inumOfFd s' = inumOfFd s" "ofteOf s' = ofteOf s" "0 \<le> offset"
  using assms by (auto simp: fsSeek_def Let_def split: if_splits)

lemma i32_id: "- 2147483648 \<le> x \<Longrightarrow> x \<le> 2147483647 \<Longrightarrow> i32 x = x"
  unfolding i32_def by (simp add: sint_sbintrunc' signed_take_bit_int_eq_self)

lemma sint32_range: "- 2147483648 \<le> sint (w :: 32 word)" "sint (w :: 32 word) \<le> 2147483647"
  using sint_ge [of w] sint_lt [of w] by simp_all

lemma i32_range: "- 2147483648 \<le> i32 x" "i32 x \<le> 2147483647"
  unfolding i32_def by (rule sint32_range)+

lemma i32_sint: "i32 (sint (w :: 32 word)) = sint w"
  by (simp add: i32_def)

lemma sint_add_word_of_int: "sint ((w :: 32 word) + word_of_int n) = i32 (sint w + n)"
  by (simp add: i32_def)

lemma sint_word_of_int_i32: "sint (word_of_int n :: 32 word) = i32 n"
  by (simp add: i32_def)

lemma i32_fsTell: "i32 (fsTell s fd) = fsTell s fd"
  by (simp add: fsTell_def bfsTell_def i32_sint)

lemma fsSeek_CUR:
  "fsSeek s fd offset SEEK_CUR =
     (if offset < 0 then Inl EBADCURS
      else Inr (s\<lparr>g_oft := (g_oft s)(ofteOf s (inumOfFd s fd) :=
                   g_oft s (ofteOf s (inumOfFd s fd)) + word_of_int offset)\<rparr>, 0))"
  by (simp add: fsSeek_def Let_def SEEK_SET_def SEEK_CUR_def bfsFdToInum_def bfsFindOFTE_def)

section \<open>The write-back loop\<close>

lemma bioWrite_frame [simp]:
  "isize (bioWrite s dbn b) = isize s" "g_oft (bioWrite s dbn b) = g_oft s"
  "inumOfFd (bioWrite s dbn b) = inumOfFd s" "ofteOf (bioWrite s dbn b) = ofteOf s"
  "freeBlocks (bioWrite s dbn b) = freeBlocks s"
  "length (fblocks (bioWrite s dbn b) j) = length (fblocks s j)"
  by (simp_all add: bioWrite_def)

lemma bioWrite_other: "j \<noteq> fst dbn \<Longrightarrow> fblocks (bioWrite s dbn b) j = fblocks s j"
  by (simp add: bioWrite_def)

lemma bioWrite_same:
  "fblocks (bioWrite s (inum, k) b) inum = (fblocks s inum)[k := b]"
  by (simp add: bioWrite_def)

lemma bfsFbnToDbn_Inr:
  "bfsFbnToDbn s inum fbn = Inr dbn \<longleftrightarrow>
     0 \<le> fbn \<and> nat fbn < length (fblocks s inum) \<and> dbn = (inum, nat fbn)"
  by (auto simp: bfsFbnToDbn_def)

lemma bfsRead_Inr:
  "bfsRead s inum fbn = Inr b \<longleftrightarrow>
     0 \<le> fbn \<and> nat fbn < length (fblocks s inum) \<and> b = fblocks s inum ! nat fbn"
  by (auto simp: bfsRead_def bfsFbnToDbn_def bioRead_def)

lemma writeLoop_frame:
  "writeLoop s inum right i sim off = Inr s' \<Longrightarrow>
     isize s' = isize s \<and> g_oft s' = g_oft s \<and> inumOfFd s' = inumOfFd s \<and> ofteOf s' = ofteOf s
     \<and> freeBlocks s' = freeBlocks s"
proof (induction s inum right i sim off rule: writeLoop.induct)
  case (1 s currInum right i simulatedMem offset)
  show ?case
  proof (cases "i \<le> right")
    case True
    with "1.prems" obtain tempBuf dbn where
      m: "memcpy (replicate (nat BYTESPERBLOCK) 0) 0 simulatedMem offset BYTESPERBLOCK = Inr tempBuf"
      and d: "bfsFbnToDbn s currInum i = Inr dbn"
      and w: "writeLoop (bioWrite s dbn tempBuf) currInum right (i + 1) simulatedMem
                (offset + BYTESPERBLOCK) = Inr s'"
      by (subst (asm) writeLoop.simps) (auto split: sum.splits)
    from "1.IH" [OF True m d w] show ?thesis by simp
  next
    case False
    with "1.prems" show ?thesis by (subst (asm) writeLoop.simps) simp
  qed
qed

lemma writeLoop_lengths:
  "writeLoop s inum right i sim off = Inr s' \<Longrightarrow> length (fblocks s' j) = length (fblocks s j)"
proof (induction s inum right i sim off rule: writeLoop.induct)
  case (1 s currInum right i simulatedMem offset)
  show ?case
  proof (cases "i \<le> right")
    case True
    with "1.prems" obtain tempBuf dbn where
      m: "memcpy (replicate (nat BYTESPERBLOCK) 0) 0 simulatedMem offset BYTESPERBLOCK = Inr tempBuf"
      and d: "bfsFbnToDbn s currInum i = Inr dbn"
      and w: "writeLoop (bioWrite s dbn tempBuf) currInum right (i + 1) simulatedMem
                (offset + BYTESPERBLOCK) = Inr s'"
      by (subst (asm) writeLoop.simps) (auto split: sum.splits)
    from "1.IH" [OF True m d w] show ?thesis by simp
  next
    case False
    with "1.prems" show ?thesis by (subst (asm) writeLoop.simps) simp
  qed
qed

lemma writeLoop_other:
  "writeLoop s inum right i sim off = Inr s' \<Longrightarrow> j \<noteq> inum \<Longrightarrow> fblocks s' j = fblocks s j"
proof (induction s inum right i sim off rule: writeLoop.induct)
  case (1 s currInum right i simulatedMem offset)
  show ?case
  proof (cases "i \<le> right")
    case True
    with "1.prems" obtain tempBuf dbn where
      m: "memcpy (replicate (nat BYTESPERBLOCK) 0) 0 simulatedMem offset BYTESPERBLOCK = Inr tempBuf"
      and d: "bfsFbnToDbn s currInum i = Inr dbn"
      and w: "writeLoop (bioWrite s dbn tempBuf) currInum right (i + 1) simulatedMem
                (offset + BYTESPERBLOCK) = Inr s'"
      by (subst (asm) writeLoop.simps) (auto split: sum.splits)
    from d have "fst dbn = currInum" by (simp add: bfsFbnToDbn_Inr)
    with "1.IH" [OF True m d w] "1.prems"(2) show ?thesis by (simp add: bioWrite_other)
  next
    case False
    with "1.prems" show ?thesis by (subst (asm) writeLoop.simps) simp
  qed
qed

lemma tempBuf_Inr:
  "memcpy (replicate (nat BYTESPERBLOCK) 0) 0 sim off BYTESPERBLOCK = Inr t \<longleftrightarrow>
     0 \<le> off \<and> off + BYTESPERBLOCK \<le> int (length sim) \<and> t = take (nat BYTESPERBLOCK) (drop (nat off) sim)"
  using B_pos by (auto simp: memcpy_Inr_iff)

lemma writeLoop_step:
  assumes "i \<le> right" and "writeLoop s inum right i sim off = Inr s'"
  shows "0 \<le> i" "nat i < length (fblocks s inum)" "0 \<le> off" "off + BYTESPERBLOCK \<le> int (length sim)"
    "writeLoop (bioWrite s (inum, nat i) (take (nat BYTESPERBLOCK) (drop (nat off) sim))) inum right (i + 1)
       sim (off + BYTESPERBLOCK) = Inr s'"
proof -
  from assms obtain tempBuf dbn where
    m: "memcpy (replicate (nat BYTESPERBLOCK) 0) 0 sim off BYTESPERBLOCK = Inr tempBuf"
    and d: "bfsFbnToDbn s inum i = Inr dbn"
    and w: "writeLoop (bioWrite s dbn tempBuf) inum right (i + 1) sim (off + BYTESPERBLOCK) = Inr s'"
    by (subst (asm) writeLoop.simps) (auto split: sum.splits)
  from m show "0 \<le> off" "off + BYTESPERBLOCK \<le> int (length sim)" by (simp_all add: tempBuf_Inr)
  from d show "0 \<le> i" "nat i < length (fblocks s inum)" by (simp_all add: bfsFbnToDbn_Inr)
  from m d w show "writeLoop (bioWrite s (inum, nat i) (take (nat BYTESPERBLOCK) (drop (nat off) sim)))
      inum right (i + 1) sim (off + BYTESPERBLOCK) = Inr s'"
    by (simp add: tempBuf_Inr bfsFbnToDbn_Inr)
qed

lemma writeLoop_done: "\<not> i \<le> right \<Longrightarrow> writeLoop s inum right i sim off = Inr s"
  by (subst writeLoop.simps) simp


lemma writeLoop_blocks:
  "writeLoop s inum right i sim off = Inr s' \<Longrightarrow> k < length (fblocks s inum) \<Longrightarrow>
     fblocks s' inum ! k =
       (if i \<le> int k \<and> int k \<le> right
        then take (nat BYTESPERBLOCK) (drop (nat (off + (int k - i) * BYTESPERBLOCK)) sim)
        else fblocks s inum ! k)"
proof (induction s inum right i sim off rule: writeLoop.induct)
  case (1 s currInum right i simulatedMem offset)
  show ?case
  proof (cases "i \<le> right")
    case True
    define t where "t = take (nat BYTESPERBLOCK) (drop (nat offset) simulatedMem)"
    define s1 where "s1 = bioWrite s (currInum, nat i) t"
    note st = writeLoop_step [OF True "1.prems"(1)]
    have m: "memcpy (replicate (nat BYTESPERBLOCK) 0) 0 simulatedMem offset BYTESPERBLOCK = Inr t"
      using st by (simp add: tempBuf_Inr t_def)
    have d: "bfsFbnToDbn s currInum i = Inr (currInum, nat i)"
      using st by (simp add: bfsFbnToDbn_Inr)
    have w: "writeLoop (bioWrite s (currInum, nat i) t) currInum right (i + 1) simulatedMem
        (offset + BYTESPERBLOCK) = Inr s'"
      using st by (simp add: t_def)
    have k1: "k < length (fblocks (bioWrite s (currInum, nat i) t) currInum)"
      using "1.prems"(2) by simp
    have e: "offset + BYTESPERBLOCK + (int k - (i + 1)) * BYTESPERBLOCK
        = offset + (int k - i) * BYTESPERBLOCK"
      by (simp add: algebra_simps)
    have ih: "fblocks s' currInum ! k =
       (if i + 1 \<le> int k \<and> int k \<le> right
        then take (nat BYTESPERBLOCK) (drop (nat (offset + (int k - i) * BYTESPERBLOCK)) simulatedMem)
        else fblocks (bioWrite s (currInum, nat i) t) currInum ! k)"
      using "1.IH" [OF True m d w k1] by (simp only: e)
    show ?thesis
    proof (cases "int k = i")
      case True
      then have "nat i = k" by simp
      then show ?thesis using ih True \<open>i \<le> right\<close> "1.prems"(2)
        by (simp add: bioWrite_same t_def)
    next
      case False
      then have "nat i \<noteq> k" using st(1) by auto
      then show ?thesis using ih False by (auto simp: bioWrite_same)
    qed
  next
    case False
    have n: "\<not> (i \<le> int k \<and> int k \<le> right)" using False by linarith
    have "s' = s" using False "1.prems"(1) by (simp add: writeLoop_done)
    then show ?thesis by (simp only: n if_False)
  qed
qed

lemma writeLoop_alloc:
  "writeLoop s inum right i sim off = Inr s' \<Longrightarrow> i \<le> j \<Longrightarrow> j \<le> right \<Longrightarrow>
     0 \<le> j \<and> nat j < length (fblocks s inum)"
proof (induction s inum right i sim off rule: writeLoop.induct)
  case (1 s currInum right i simulatedMem offset)
  from "1.prems" have True: "i \<le> right" by simp
  define t where "t = take (nat BYTESPERBLOCK) (drop (nat offset) simulatedMem)"
  note st = writeLoop_step [OF True "1.prems"(1)]
  have m: "memcpy (replicate (nat BYTESPERBLOCK) 0) 0 simulatedMem offset BYTESPERBLOCK = Inr t"
    using st by (simp add: tempBuf_Inr t_def)
  have d: "bfsFbnToDbn s currInum i = Inr (currInum, nat i)"
    using st by (simp add: bfsFbnToDbn_Inr)
  have w: "writeLoop (bioWrite s (currInum, nat i) t) currInum right (i + 1) simulatedMem
      (offset + BYTESPERBLOCK) = Inr s'"
    using st by (simp add: t_def)
  show ?case
  proof (cases "j = i")
    case True
    then show ?thesis using st by simp
  next
    case False
    then have "i + 1 \<le> j" using "1.prems" by simp
    from "1.IH" [OF True m d w this "1.prems"(3)] show ?thesis by simp
  qed
qed

lemma writeLoop_simlen:
  "writeLoop s inum right i sim off = Inr s' \<Longrightarrow> i \<le> right \<Longrightarrow>
     0 \<le> off \<and> off + (right + 1 - i) * BYTESPERBLOCK \<le> int (length sim)"
proof (induction s inum right i sim off rule: writeLoop.induct)
  case (1 s currInum right i simulatedMem offset)
  from "1.prems" have True: "i \<le> right" by simp
  define t where "t = take (nat BYTESPERBLOCK) (drop (nat offset) simulatedMem)"
  note st = writeLoop_step [OF True "1.prems"(1)]
  have m: "memcpy (replicate (nat BYTESPERBLOCK) 0) 0 simulatedMem offset BYTESPERBLOCK = Inr t"
    using st by (simp add: tempBuf_Inr t_def)
  have d: "bfsFbnToDbn s currInum i = Inr (currInum, nat i)"
    using st by (simp add: bfsFbnToDbn_Inr)
  have w: "writeLoop (bioWrite s (currInum, nat i) t) currInum right (i + 1) simulatedMem
      (offset + BYTESPERBLOCK) = Inr s'"
    using st by (simp add: t_def)
  show ?case
  proof (cases "i = right")
    case True
    then show ?thesis using st by simp
  next
    case False
    then have "i + 1 \<le> right" using True by simp
    from "1.IH" [OF True m d w this] st show ?thesis by (simp add: algebra_simps)
  qed
qed

lemma writeLoop_succeeds:
  "(i \<le> right \<longrightarrow> 0 \<le> i \<and> right < int (length (fblocks s inum)) \<and> 0 \<le> off
      \<and> off + (right + 1 - i) * BYTESPERBLOCK \<le> int (length sim)) \<Longrightarrow>
   \<exists>s'. writeLoop s inum right i sim off = Inr s'"
proof (induction s inum right i sim off rule: writeLoop.induct)
  case (1 s currInum right i simulatedMem offset)
  show ?case
  proof (cases "i \<le> right")
    case True
    define t where "t = take (nat BYTESPERBLOCK) (drop (nat offset) simulatedMem)"
    from True "1.prems" have p: "0 \<le> i" "right < int (length (fblocks s currInum))" "0 \<le> offset"
      "offset + (right + 1 - i) * BYTESPERBLOCK \<le> int (length simulatedMem)" by simp_all
    have "BYTESPERBLOCK \<le> (right + 1 - i) * BYTESPERBLOCK"
      using True B_pos by (simp add: mult_le_cancel_right1)
    with p have ob: "offset + BYTESPERBLOCK \<le> int (length simulatedMem)" by linarith
    have m: "memcpy (replicate (nat BYTESPERBLOCK) 0) 0 simulatedMem offset BYTESPERBLOCK = Inr t"
      using p ob by (simp add: tempBuf_Inr t_def)
    have d: "bfsFbnToDbn s currInum i = Inr (currInum, nat i)"
      using p True by (simp add: bfsFbnToDbn_Inr)
    have "\<exists>s'. writeLoop (bioWrite s (currInum, nat i) t) currInum right (i + 1) simulatedMem
        (offset + BYTESPERBLOCK) = Inr s'"
    proof (rule "1.IH" [OF True m d], intro impI)
      assume "i + 1 \<le> right"
      then show "0 \<le> i + 1 \<and> right < int (length (fblocks (bioWrite s (currInum, nat i) t) currInum))
          \<and> 0 \<le> offset + BYTESPERBLOCK
          \<and> offset + BYTESPERBLOCK + (right + 1 - (i + 1)) * BYTESPERBLOCK \<le> int (length simulatedMem)"
        using p B_pos by (simp add: algebra_simps)
    qed
    then show ?thesis using True m d by (subst writeLoop.simps) simp
  next
    case False
    then show ?thesis by (simp add: writeLoop_done)
  qed
qed

section \<open>Extension and the staging region\<close>

lemma stagingLen_arith: "stagingLen left right = (right - left + 1 + 128) mod 256 - 128"
  unfolding stagingLen_def int_word_sint by simp

lemma stagingLen_small:
  "1 \<le> right - left + 1 \<Longrightarrow> right - left + 1 \<le> 127 \<Longrightarrow> stagingLen left right = right - left + 1"
  by (simp add: stagingLen_arith)

lemma stagingLen_range: "- 128 \<le> stagingLen left right" "stagingLen left right \<le> 127"
proof -
  have "0 \<le> (right - left + 1 + 128) mod 256" "(right - left + 1 + 128) mod (256::int) < 256"
    by simp_all
  then show "- 128 \<le> stagingLen left right" "stagingLen left right \<le> 127"
    unfolding stagingLen_arith by linarith+
qed

lemma span_div:
  "(c + numb) div BYTESPERBLOCK - c div BYTESPERBLOCK = (c mod BYTESPERBLOCK + numb) div BYTESPERBLOCK"
proof -
  have "c + numb = c div BYTESPERBLOCK * BYTESPERBLOCK + (c mod BYTESPERBLOCK + numb)"
    by simp
  then have "(c + numb) div BYTESPERBLOCK
      = (c div BYTESPERBLOCK * BYTESPERBLOCK + (c mod BYTESPERBLOCK + numb)) div BYTESPERBLOCK"
    by simp
  also have "\<dots> = c div BYTESPERBLOCK + (c mod BYTESPERBLOCK + numb) div BYTESPERBLOCK"
    using B_pos by (simp only: div_mult_self3 [OF less_imp_neq [THEN not_sym]])
  finally show ?thesis by simp
qed

lemma mod_B_range: "0 \<le> c mod BYTESPERBLOCK" "c mod BYTESPERBLOCK < BYTESPERBLOCK"
  using B_pos by simp_all

lemma bfsExtend_Inr:
  assumes "bfsExtend s inum fbn = Inr s'"
  shows "isize s' = isize s" "g_oft s' = g_oft s" "inumOfFd s' = inumOfFd s" "ofteOf s' = ofteOf s"
    "nat (fbn + 1) - length (fblocks s inum) \<le> length (freeBlocks s)"
    "fblocks s' = (fblocks s)(inum := fblocks s inum
        @ take (nat (fbn + 1) - length (fblocks s inum)) (freeBlocks s))"
    "freeBlocks s' = drop (nat (fbn + 1) - length (fblocks s inum)) (freeBlocks s)"
  using assms by (auto simp: bfsExtend_def Let_def split: if_splits)

lemma bfsExtend_length:
  assumes "bfsExtend s inum fbn = Inr s'"
  shows "length (fblocks s' inum) = max (length (fblocks s inum)) (nat (fbn + 1))"
  using bfsExtend_Inr(5,6) [OF assms] by (simp add: min_absorb2)

lemma fsWrite_grow_cases:
  assumes "fsWrite_grow s inum c numb right = Inr s1"
  obtains (grow) s' where "isize s inum < c + numb" "bfsExtend s inum right = Inr s'"
      "s1 = bfsSetSize s' inum (c + numb)"
    | (keep) "\<not> isize s inum < c + numb" "s1 = s"
  using assms
  by (auto simp: fsWrite_grow_def bfsGetSize_def split: if_splits sum.splits)

lemma fsWrite_grow_frame:
  assumes "fsWrite_grow s inum c numb right = Inr s1"
  shows "g_oft s1 = g_oft s" "inumOfFd s1 = inumOfFd s" "ofteOf s1 = ofteOf s"
  using assms
  by (cases rule: fsWrite_grow_cases; simp add: bfsSetSize_def bfsExtend_Inr)+

lemma fsWrite_grow_isize:
  assumes "fsWrite_grow s inum c numb right = Inr s1"
  shows "isize s1 = (if isize s inum < c + numb then (isize s)(inum := c + numb) else isize s)"
  using assms
  by (cases rule: fsWrite_grow_cases; simp add: bfsSetSize_def bfsExtend_Inr)

lemma fsWrite_grow_fblocks:
  assumes "fsWrite_grow s inum c numb right = Inr s1"
  shows "fblocks s1 = (if isize s inum < c + numb
      then (fblocks s)(inum := fblocks s inum
        @ take (nat (right + 1) - length (fblocks s inum)) (freeBlocks s))
      else fblocks s)"
  using assms
  by (cases rule: fsWrite_grow_cases; simp add: bfsSetSize_def bfsExtend_Inr)

lemma fsWrite_grow_length:
  assumes "fsWrite_grow s inum c numb right = Inr s1"
  shows "length (fblocks s1 inum) = (if isize s inum < c + numb
      then max (length (fblocks s inum)) (nat (right + 1)) else length (fblocks s inum))"
  using assms
  by (cases rule: fsWrite_grow_cases; simp add: bfsSetSize_def bfsExtend_length)

lemma fsWrite_grow_old:
  assumes "fsWrite_grow s inum c numb right = Inr s1" and "k < length (fblocks s inum)"
  shows "fblocks s1 inum ! k = fblocks s inum ! k"
  using assms by (simp add: fsWrite_grow_fblocks nth_append)

lemma fsWrite_stage_elim:
  assumes "fsWrite_stage s inum c left right numb buf = Inr sim"
  obtains b0 sim1 sim2 where
    "0 < stagingLen left right * BYTESPERBLOCK"
    "bfsRead s inum left = Inr b0"
    "memcpy (replicate (nat (stagingLen left right * BYTESPERBLOCK)) 0) 0 b0 0 BYTESPERBLOCK = Inr sim1"
    "1 < stagingLen left right \<Longrightarrow> \<exists>b1. bfsRead s inum right = Inr b1
        \<and> memcpy sim1 ((stagingLen left right - 1) * BYTESPERBLOCK) b1 0 BYTESPERBLOCK = Inr sim2"
    "\<not> 1 < stagingLen left right \<Longrightarrow> sim2 = sim1"
    "memcpy sim2 (c smod BYTESPERBLOCK) buf 0 numb = Inr sim"
  using assms
  by (auto simp: fsWrite_stage_def Let_def split: if_splits sum.splits)

lemma memcpy_succeeds:
  "0 \<le> n \<Longrightarrow> 0 \<le> doff \<Longrightarrow> 0 \<le> soff \<Longrightarrow> doff + n \<le> int (length dst) \<Longrightarrow>
   soff + n \<le> int (length src) \<Longrightarrow> \<exists>r. memcpy dst doff src soff n = Inr r \<and> length r = length dst"
  by (auto simp: memcpy_def)

lemma fsWrite_stage_succeeds:
  assumes span: "1 \<le> right - left + 1" "right - left + 1 \<le> 127"
    and l: "0 \<le> left" and r: "right < int (length (fblocks s inum))"
    and b0: "BYTESPERBLOCK \<le> int (length (fblocks s inum ! nat left))"
    and b1: "BYTESPERBLOCK \<le> int (length (fblocks s inum ! nat right))"
    and c: "0 \<le> c smod BYTESPERBLOCK" and n: "0 \<le> numb"
    and fit: "c smod BYTESPERBLOCK + numb \<le> (right - left + 1) * BYTESPERBLOCK"
    and buf: "numb \<le> int (length buf)"
  shows "\<exists>sim. fsWrite_stage s inum c left right numb buf = Inr sim
           \<and> int (length sim) = (right - left + 1) * BYTESPERBLOCK"
proof -
  define len where "len = right - left + 1"
  have L: "stagingLen left right = len"
    using span by (simp add: stagingLen_small len_def)
  have lenB: "BYTESPERBLOCK \<le> len * BYTESPERBLOCK"
    using span B_pos by (simp add: len_def mult_le_cancel_right1)
  have pos: "0 < len * BYTESPERBLOCK" using lenB B_pos by linarith
  have r0: "bfsRead s inum left = Inr (fblocks s inum ! nat left)"
    using l r span by (simp add: bfsRead_Inr)
  have r1: "bfsRead s inum right = Inr (fblocks s inum ! nat right)"
    using l r span by (simp add: bfsRead_Inr)
  obtain sim1 where m1: "memcpy (replicate (nat (len * BYTESPERBLOCK)) 0) 0
        (fblocks s inum ! nat left) 0 BYTESPERBLOCK = Inr sim1"
    and l1: "length sim1 = nat (len * BYTESPERBLOCK)"
    using memcpy_succeeds [of BYTESPERBLOCK 0 0 "replicate (nat (len * BYTESPERBLOCK)) 0"
        "fblocks s inum ! nat left"] B_pos lenB b0 by auto
  have "(len - 1) * BYTESPERBLOCK + BYTESPERBLOCK = len * BYTESPERBLOCK"
    by (simp add: algebra_simps)
  moreover have "0 \<le> (len - 1) * BYTESPERBLOCK" using span B_pos by (simp add: len_def)
  ultimately obtain sim2' where m2: "memcpy sim1 ((len - 1) * BYTESPERBLOCK)
        (fblocks s inum ! nat right) 0 BYTESPERBLOCK = Inr sim2'"
    and l2': "length sim2' = nat (len * BYTESPERBLOCK)"
    using memcpy_succeeds [of BYTESPERBLOCK "(len - 1) * BYTESPERBLOCK" 0 sim1
        "fblocks s inum ! nat right"] B_pos b1 l1 pos by auto
  define sim2 where "sim2 = (if 1 < len then sim2' else sim1)"
  have l2: "length sim2 = nat (len * BYTESPERBLOCK)" by (simp add: sim2_def l1 l2')
  obtain sim where m3: "memcpy sim2 (c smod BYTESPERBLOCK) buf 0 numb = Inr sim"
    and l3: "length sim = nat (len * BYTESPERBLOCK)"
    using memcpy_succeeds [of numb "c smod BYTESPERBLOCK" 0 sim2 buf] c n fit buf l2 pos
    by (auto simp: len_def)
  have "fsWrite_stage s inum c left right numb buf = Inr sim"
    using pos r0 r1 m1 m2 m3 by (auto simp: fsWrite_stage_def L sim2_def)
  then show ?thesis using l3 pos by (auto simp: len_def)
qed

section \<open>fsWrite as a whole\<close>

lemma fsWrite_elim:
  assumes "fsWrite s fd numb buf = Inr (s', r)"
  obtains s1 sim s2 where
    "fsWrite_grow s (inumOfFd s fd) (fsTell s fd) numb ((fsTell s fd + numb) sdiv BYTESPERBLOCK) = Inr s1"
    "fsWrite_stage s1 (inumOfFd s fd) (fsTell s fd) (fsTell s fd sdiv BYTESPERBLOCK)
       ((fsTell s fd + numb) sdiv BYTESPERBLOCK) numb buf = Inr sim"
    "writeLoop s1 (inumOfFd s fd) ((fsTell s fd + numb) sdiv BYTESPERBLOCK)
       (fsTell s fd sdiv BYTESPERBLOCK) sim 0 = Inr s2"
    "fsSeek s2 fd numb SEEK_CUR = Inr (s', 0)" "r = 0"
  using assms
  by (auto simp: fsWrite_def Let_def fsTell_def bfsFdToInum_def split: sum.splits dest: fsSeek_Inr(1))

lemma fsWrite_ret: "fsWrite s fd numb buf = Inr (s', r) \<Longrightarrow> r = 0"
  by (erule fsWrite_elim)

lemma fsWrite_numb: "fsWrite s fd numb buf = Inr (s', r) \<Longrightarrow> 0 \<le> numb"
  by (erule fsWrite_elim) (simp add: fsSeek_Inr)

lemma fsWrite_tables:
  assumes "fsWrite s fd numb buf = Inr (s', r)"
  shows "inumOfFd s' = inumOfFd s" "ofteOf s' = ofteOf s"
  using assms
  by (auto elim!: fsWrite_elim simp: fsSeek_Inr writeLoop_frame fsWrite_grow_frame)

lemma fsWrite_isize:
  assumes "fsWrite s fd numb buf = Inr (s', r)"
  shows "isize s' = (if isize s (inumOfFd s fd) < fsTell s fd + numb
      then (isize s)(inumOfFd s fd := fsTell s fd + numb) else isize s)"
  using assms
  by (elim fsWrite_elim) (simp add: fsSeek_Inr writeLoop_frame fsWrite_grow_isize)

lemma fsWrite_nblocks:
  assumes "fsWrite s fd numb buf = Inr (s', r)"
  shows "length (fblocks s' (inumOfFd s fd)) = (if isize s (inumOfFd s fd) < fsTell s fd + numb
      then max (length (fblocks s (inumOfFd s fd))) (nat ((fsTell s fd + numb) sdiv BYTESPERBLOCK + 1))
      else length (fblocks s (inumOfFd s fd)))"
  using assms
  by (elim fsWrite_elim) (simp add: fsSeek_Inr writeLoop_lengths fsWrite_grow_length)

lemma fsWrite_cursor:
  assumes "fsWrite s fd numb buf = Inr (s', r)"
  shows "fsTell s' fd = i32 (fsTell s fd + numb)"
proof -
  from assms obtain s1 sim s2 where
    g: "fsWrite_grow s (inumOfFd s fd) (fsTell s fd) numb ((fsTell s fd + numb) sdiv BYTESPERBLOCK) = Inr s1"
    and w: "writeLoop s1 (inumOfFd s fd) ((fsTell s fd + numb) sdiv BYTESPERBLOCK)
       (fsTell s fd sdiv BYTESPERBLOCK) sim 0 = Inr s2"
    and k: "fsSeek s2 fd numb SEEK_CUR = Inr (s', 0)"
    by (rule fsWrite_elim)
  have e: "g_oft s2 = g_oft s" "inumOfFd s2 = inumOfFd s" "ofteOf s2 = ofteOf s"
    using writeLoop_frame [OF w] fsWrite_grow_frame [OF g] by simp_all
  from k show ?thesis
    by (auto simp: fsSeek_CUR e fsTell_def bfsTell_def bfsFdToInum_def bfsFindOFTE_def
        sint_add_word_of_int split: if_splits)
qed

lemma bfsExtend_succeeds:
  "nat (fbn + 1) - length (fblocks s inum) \<le> length (freeBlocks s) \<Longrightarrow>
     \<exists>s'. bfsExtend s inum fbn = Inr s'"
  by (simp add: bfsExtend_def Let_def)

lemma wholeBlocks_nth: "wholeBlocks bs \<Longrightarrow> k < length bs \<Longrightarrow> int (length (bs ! k)) = BYTESPERBLOCK"
  by (simp add: wholeBlocks_def list_all_length)

lemma wholeBlocks_append: "wholeBlocks (xs @ ys) \<longleftrightarrow> wholeBlocks xs \<and> wholeBlocks ys"
  by (simp add: wholeBlocks_def)

lemma below_next_block: "x < (x div BYTESPERBLOCK + 1) * BYTESPERBLOCK"
proof -
  have "x div BYTESPERBLOCK * BYTESPERBLOCK + x mod BYTESPERBLOCK = x" by simp
  moreover have "x mod BYTESPERBLOCK < BYTESPERBLOCK" by (rule mod_B_range)
  moreover have "(x div BYTESPERBLOCK + 1) * BYTESPERBLOCK
      = x div BYTESPERBLOCK * BYTESPERBLOCK + BYTESPERBLOCK"
    by (simp add: algebra_simps)
  ultimately show ?thesis by linarith
qed

lemma div_B_mono: "a \<le> b \<Longrightarrow> a div BYTESPERBLOCK \<le> b div BYTESPERBLOCK"
  using B_pos by (simp add: zdiv_mono1)

lemma div_B_nonneg: "0 \<le> a \<Longrightarrow> 0 \<le> a div BYTESPERBLOCK"
  using B_pos by (simp add: pos_imp_zdiv_nonneg_iff)

lemma fsWrite_succeeds:
  assumes ok: "write_ok s fd numb buf"
  shows "\<exists>s'. fsWrite s fd numb buf = Inr (s', 0)"
proof -
  define inum where "inum = inumOfFd s fd"
  define c where "c = fsTell s fd"
  define left where "left = c div BYTESPERBLOCK"
  define right where "right = (c + numb) div BYTESPERBLOCK"
  define need where "need = nat (right + 1) - length (fblocks s inum)"
  from ok have c0: "0 \<le> c" and n0: "0 \<le> numb" and nb: "numb \<le> int (length buf)"
    and sp: "right - left < 127"
    and cap: "if isize s inum < c + numb then need \<le> length (freeBlocks s)
              else right < int (length (fblocks s inum))"
    and wf: "wholeBlocks (fblocks s inum)" and wfree: "wholeBlocks (take need (freeBlocks s))"
    by (simp_all add: write_ok_def Let_def inum_def c_def left_def right_def need_def
        fsTell_def bfsFdToInum_def bfsGetSize_def)
  have sl: "c sdiv BYTESPERBLOCK = left" and sr: "(c + numb) sdiv BYTESPERBLOCK = right"
    and sm: "c smod BYTESPERBLOCK = c mod BYTESPERBLOCK"
    using c0 n0 by (simp_all add: sdiv_nonneg smod_nonneg left_def right_def)
  have l0: "0 \<le> left" using c0 by (simp add: left_def div_B_nonneg)
  have lr: "left \<le> right" using n0 by (simp add: left_def right_def div_B_mono)
  obtain s1 where g: "fsWrite_grow s inum c numb right = Inr s1"
  proof (cases "isize s inum < c + numb")
    case True
    with cap have "need \<le> length (freeBlocks s)" by simp
    then obtain s' where "bfsExtend s inum right = Inr s'"
      using bfsExtend_succeeds [of right s inum] by (auto simp: need_def)
    then show ?thesis using True that by (simp add: fsWrite_grow_def bfsGetSize_def)
  next
    case False
    then show ?thesis using that by (simp add: fsWrite_grow_def bfsGetSize_def)
  qed
  have r1: "right < int (length (fblocks s1 inum))"
    using cap l0 lr by (auto simp: fsWrite_grow_length [OF g] split: if_splits)
  have wf1: "wholeBlocks (fblocks s1 inum)"
    using wf wfree by (simp add: fsWrite_grow_fblocks [OF g] wholeBlocks_append need_def)
  have bl: "BYTESPERBLOCK \<le> int (length (fblocks s1 inum ! nat left))"
    using wholeBlocks_nth [OF wf1, of "nat left"] r1 lr l0 by simp
  have br: "BYTESPERBLOCK \<le> int (length (fblocks s1 inum ! nat right))"
    using wholeBlocks_nth [OF wf1, of "nat right"] r1 lr l0 by simp
  have "right - left = (c mod BYTESPERBLOCK + numb) div BYTESPERBLOCK"
    unfolding left_def right_def by (rule span_div)
  then have fit: "c smod BYTESPERBLOCK + numb \<le> (right - left + 1) * BYTESPERBLOCK"
    using below_next_block [of "c mod BYTESPERBLOCK + numb"] by (simp add: sm)
  have cm: "0 \<le> c smod BYTESPERBLOCK" by (simp add: sm mod_B_range)
  obtain sim where st: "fsWrite_stage s1 inum c left right numb buf = Inr sim"
    and ls: "int (length sim) = (right - left + 1) * BYTESPERBLOCK"
    using fsWrite_stage_succeeds [OF _ _ l0 r1 bl br cm n0 fit nb] lr sp by auto
  obtain s2 where w: "writeLoop s1 inum right left sim 0 = Inr s2"
  proof -
    have "(right + 1 - left) * BYTESPERBLOCK = (right - left + 1) * BYTESPERBLOCK"
      by (simp add: algebra_simps)
    then have "left \<le> right \<longrightarrow> 0 \<le> left \<and> right < int (length (fblocks s1 inum)) \<and> (0::int) \<le> 0
        \<and> 0 + (right + 1 - left) * BYTESPERBLOCK \<le> int (length sim)"
      using l0 r1 ls by (simp only:) simp
    from writeLoop_succeeds [OF this] that show ?thesis by blast
  qed
  have k: "fsSeek s2 fd numb SEEK_CUR = Inr (s2\<lparr>g_oft := (g_oft s2)
      (ofteOf s2 (inumOfFd s2 fd) :=
         g_oft s2 (ofteOf s2 (inumOfFd s2 fd)) + word_of_int numb)\<rparr>, 0)"
    using n0 by (simp add: fsSeek_CUR)
  show ?thesis
    using g st w k
    by (simp add: fsWrite_def Let_def fsTell_def [symmetric] bfsFdToInum_def
        inum_def [symmetric] c_def [symmetric] sl sr)
qed

lemma memcpy_nth_int:
  assumes "memcpy dst doff src soff n = Inr r" and "0 \<le> m" and "m < int (length dst)"
  shows "r ! nat m = (if doff \<le> m \<and> m < doff + n then src ! nat (soff + (m - doff)) else dst ! nat m)"
proof -
  from assms(1) have h: "0 \<le> n" "0 \<le> doff" "0 \<le> soff"
    by (simp_all add: memcpy_Inr_iff)
  have k: "nat m < length dst" using assms(2,3) by linarith
  show ?thesis
  proof (cases "doff \<le> m \<and> m < doff + n")
    case True
    then have T: "nat doff \<le> nat m \<and> nat m < nat (doff + n)" using h assms(2) by linarith
    have c3: "nat soff + (nat m - nat doff) = nat (soff + (m - doff))"
      using True h assms(2) by linarith
    have "r ! nat m = src ! (nat soff + (nat m - nat doff))"
      using memcpy_nth [OF assms(1) k] by (simp only: if_P [OF T])
    then show ?thesis by (simp only: c3 if_P [OF True])
  next
    case False
    then have F: "\<not> (nat doff \<le> nat m \<and> nat m < nat (doff + n))" using h assms(2) by linarith
    have "r ! nat m = dst ! nat m"
      using memcpy_nth [OF assms(1) k] by (simp only: if_not_P [OF F])
    then show ?thesis by (simp only: if_not_P [OF False])
  qed
qed

lemma fsWrite_stage_facts:
  assumes st: "fsWrite_stage s inum c left right numb buf = Inr sim"
  shows "int (length sim) = stagingLen left right * BYTESPERBLOCK"
    and "1 \<le> stagingLen left right"
    and "0 \<le> c smod BYTESPERBLOCK" and "0 \<le> numb"
    and "c smod BYTESPERBLOCK + numb \<le> stagingLen left right * BYTESPERBLOCK"
    and "numb \<le> int (length buf)"
    and "0 \<le> left" and "nat left < length (fblocks s inum)"
    and "BYTESPERBLOCK \<le> int (length (fblocks s inum ! nat left))"
    and "1 < stagingLen left right \<Longrightarrow> 0 \<le> right \<and> nat right < length (fblocks s inum)
          \<and> BYTESPERBLOCK \<le> int (length (fblocks s inum ! nat right))"
    and "\<And>m. 0 \<le> m \<Longrightarrow> m < stagingLen left right * BYTESPERBLOCK \<Longrightarrow>
          sim ! nat m =
            (if c smod BYTESPERBLOCK \<le> m \<and> m < c smod BYTESPERBLOCK + numb
               then buf ! nat (m - c smod BYTESPERBLOCK)
             else if 1 < stagingLen left right \<and> (stagingLen left right - 1) * BYTESPERBLOCK \<le> m
               then fblocks s inum ! nat right ! nat (m - (stagingLen left right - 1) * BYTESPERBLOCK)
             else if m < BYTESPERBLOCK then fblocks s inum ! nat left ! nat m
             else 0)"
proof -
  define len where "len = stagingLen left right"
  obtain b0 sim1 sim2 where
    pos: "0 < len * BYTESPERBLOCK"
    and r0: "bfsRead s inum left = Inr b0"
    and m1: "memcpy (replicate (nat (len * BYTESPERBLOCK)) 0) 0 b0 0 BYTESPERBLOCK = Inr sim1"
    and m2: "1 < len \<Longrightarrow> \<exists>b1. bfsRead s inum right = Inr b1
        \<and> memcpy sim1 ((len - 1) * BYTESPERBLOCK) b1 0 BYTESPERBLOCK = Inr sim2"
    and m2': "\<not> 1 < len \<Longrightarrow> sim2 = sim1"
    and m3: "memcpy sim2 (c smod BYTESPERBLOCK) buf 0 numb = Inr sim"
    unfolding len_def by (rule fsWrite_stage_elim [OF st]) blast
  have b0: "b0 = fblocks s inum ! nat left" and l0: "0 \<le> left" "nat left < length (fblocks s inum)"
    using r0 by (simp_all add: bfsRead_Inr)
  have l1: "int (length sim1) = len * BYTESPERBLOCK"
    using memcpy_length [OF m1] pos by simp
  have l2: "int (length sim2) = len * BYTESPERBLOCK"
  proof (cases "1 < len")
    case True
    from m2 [OF True] show ?thesis using l1 by (auto dest: memcpy_length)
  next
    case False
    then show ?thesis using m2' l1 by simp
  qed
  have l3: "int (length sim) = len * BYTESPERBLOCK"
    using memcpy_length [OF m3] l2 by simp
  have len1: "1 \<le> len"
  proof (rule ccontr)
    assume "\<not> 1 \<le> len"
    then have "len \<le> 0" by simp
    then have "len * BYTESPERBLOCK \<le> 0" using B_pos by (simp add: mult_le_0_iff)
    with pos show False by simp
  qed
  show "int (length sim) = stagingLen left right * BYTESPERBLOCK" using l3 by (simp add: len_def)
  show "1 \<le> stagingLen left right" using len1 by (simp add: len_def)
  show "0 \<le> c smod BYTESPERBLOCK" "0 \<le> numb" "numb \<le> int (length buf)"
    using m3 by (simp_all add: memcpy_Inr_iff)
  show "c smod BYTESPERBLOCK + numb \<le> stagingLen left right * BYTESPERBLOCK"
    using m3 l2 by (simp add: memcpy_Inr_iff len_def)
  show "0 \<le> left" "nat left < length (fblocks s inum)" by (rule l0)+
  show "BYTESPERBLOCK \<le> int (length (fblocks s inum ! nat left))"
    using m1 b0 by (simp add: memcpy_Inr_iff)
  show "0 \<le> right \<and> nat right < length (fblocks s inum)
          \<and> BYTESPERBLOCK \<le> int (length (fblocks s inum ! nat right))"
    if "1 < stagingLen left right"
    using m2 that by (auto simp: len_def bfsRead_Inr memcpy_Inr_iff)
  show "sim ! nat m =
            (if c smod BYTESPERBLOCK \<le> m \<and> m < c smod BYTESPERBLOCK + numb
               then buf ! nat (m - c smod BYTESPERBLOCK)
             else if 1 < stagingLen left right \<and> (stagingLen left right - 1) * BYTESPERBLOCK \<le> m
               then fblocks s inum ! nat right ! nat (m - (stagingLen left right - 1) * BYTESPERBLOCK)
             else if m < BYTESPERBLOCK then fblocks s inum ! nat left ! nat m
             else 0)"
    if m0: "0 \<le> m" and mm: "m < stagingLen left right * BYTESPERBLOCK" for m
  proof -
    have mlen: "m < len * BYTESPERBLOCK" using mm by (simp add: len_def)
    have e3: "sim ! nat m = (if c smod BYTESPERBLOCK \<le> m \<and> m < c smod BYTESPERBLOCK + numb
        then buf ! nat (m - c smod BYTESPERBLOCK) else sim2 ! nat m)"
      using memcpy_nth_int [OF m3 m0] mlen l2 by simp
    have e1: "sim1 ! nat m = (if m < BYTESPERBLOCK then fblocks s inum ! nat left ! nat m else 0)"
    proof -
      have "nat m < nat (len * BYTESPERBLOCK)" using m0 mlen by linarith
      then show ?thesis
        using memcpy_nth_int [OF m1 m0] mlen m0 pos by (simp add: b0)
    qed
    have e2: "sim2 ! nat m = (if 1 < len \<and> (len - 1) * BYTESPERBLOCK \<le> m
        then fblocks s inum ! nat right ! nat (m - (len - 1) * BYTESPERBLOCK) else sim1 ! nat m)"
    proof (cases "1 < len")
      case True
      from m2 [OF True] obtain b1 where r1: "bfsRead s inum right = Inr b1"
        and mm2: "memcpy sim1 ((len - 1) * BYTESPERBLOCK) b1 0 BYTESPERBLOCK = Inr sim2" by blast
      have b1: "b1 = fblocks s inum ! nat right" using r1 by (simp add: bfsRead_Inr)
      have "(len - 1) * BYTESPERBLOCK + BYTESPERBLOCK = len * BYTESPERBLOCK"
        by (simp add: algebra_simps)
      then have "m < (len - 1) * BYTESPERBLOCK + BYTESPERBLOCK" using mlen by simp
      then show ?thesis
        using memcpy_nth_int [OF mm2 m0] mlen l1 True by (simp add: b1)
    next
      case False
      then show ?thesis using m2' by simp
    qed
    show ?thesis unfolding e3 e2 e1 len_def [symmetric] by simp
  qed
qed

lemma fsWrite_span:
  assumes w: "fsWrite s fd numb buf = Inr (s', r)" and c0: "0 \<le> fsTell s fd"
  shows "(fsTell s fd + numb) div BYTESPERBLOCK - fsTell s fd div BYTESPERBLOCK + 1 \<le> 127"
    and "stagingLen (fsTell s fd div BYTESPERBLOCK) ((fsTell s fd + numb) div BYTESPERBLOCK)
          = (fsTell s fd + numb) div BYTESPERBLOCK - fsTell s fd div BYTESPERBLOCK + 1"
proof -
  define c where "c = fsTell s fd"
  define left where "left = c div BYTESPERBLOCK"
  define right where "right = (c + numb) div BYTESPERBLOCK"
  have n0: "0 \<le> numb" using w by (rule fsWrite_numb)
  have sl: "c sdiv BYTESPERBLOCK = left" and sr: "(c + numb) sdiv BYTESPERBLOCK = right"
    and sm: "c smod BYTESPERBLOCK = c mod BYTESPERBLOCK"
    using c0 n0 by (simp_all add: sdiv_nonneg smod_nonneg left_def right_def c_def)
  from w obtain s1 sim where
    st: "fsWrite_stage s1 (inumOfFd s fd) c left right numb buf = Inr sim"
    by (auto elim!: fsWrite_elim simp: c_def [symmetric] sl sr)
  note f = fsWrite_stage_facts [OF st]
  have d: "right - left = (c mod BYTESPERBLOCK + numb) div BYTESPERBLOCK"
    unfolding left_def right_def by (rule span_div)
  have "stagingLen left right * BYTESPERBLOCK \<le> 127 * BYTESPERBLOCK"
    using stagingLen_range(2) [of left right] B_pos by (simp add: mult_right_mono)
  with f(5) have "c mod BYTESPERBLOCK + numb \<le> 127 * BYTESPERBLOCK" by (simp add: sm)
  then have "(c mod BYTESPERBLOCK + numb) div BYTESPERBLOCK \<le> (127 * BYTESPERBLOCK) div BYTESPERBLOCK"
    by (rule div_B_mono)
  then have le: "right - left \<le> 127" using B_pos by (simp add: d)
  have ge: "0 \<le> right - left"
    using n0 div_B_mono [of c "c + numb"] by (simp add: left_def right_def)
  have ne: "right - left \<noteq> 127"
  proof
    assume "right - left = 127"
    then have "right - left + 1 + 128 = (256::int)" by simp
    then have "stagingLen left right = - 128" by (simp add: stagingLen_arith)
    with f(2) show False by simp
  qed
  from le ne have sp: "right - left + 1 \<le> 127" by simp
  then show "(fsTell s fd + numb) div BYTESPERBLOCK - fsTell s fd div BYTESPERBLOCK + 1 \<le> 127"
    by (simp add: left_def right_def c_def)
  show "stagingLen (fsTell s fd div BYTESPERBLOCK) ((fsTell s fd + numb) div BYTESPERBLOCK)
          = (fsTell s fd + numb) div BYTESPERBLOCK - fsTell s fd div BYTESPERBLOCK + 1"
    using stagingLen_small [of right left] sp ge by (simp add: left_def right_def c_def)
qed

section \<open>The bytes of the file after fsWrite\<close>

lemma block_bounds:
  "p div BYTESPERBLOCK * BYTESPERBLOCK \<le> p" "p < (p div BYTESPERBLOCK + 1) * BYTESPERBLOCK"
  "p - p div BYTESPERBLOCK * BYTESPERBLOCK = p mod BYTESPERBLOCK"
proof -
  have e: "p div BYTESPERBLOCK * BYTESPERBLOCK + p mod BYTESPERBLOCK = p" by simp
  show "p div BYTESPERBLOCK * BYTESPERBLOCK \<le> p" using e mod_B_range(1) [of p] by linarith
  show "p < (p div BYTESPERBLOCK + 1) * BYTESPERBLOCK" by (rule below_next_block)
  show "p - p div BYTESPERBLOCK * BYTESPERBLOCK = p mod BYTESPERBLOCK" using e by linarith
qed

lemma mult_B_mono: "a \<le> b \<Longrightarrow> a * BYTESPERBLOCK \<le> b * BYTESPERBLOCK"
  using B_pos by (simp add: mult_right_mono)

lemma fsWrite_blocks_obtain:
  assumes w: "fsWrite s fd numb buf = Inr (s', r)" and c0: "0 \<le> fsTell s fd"
  obtains s1 sim where
    "fsWrite_grow s (inumOfFd s fd) (fsTell s fd) numb ((fsTell s fd + numb) div BYTESPERBLOCK) = Inr s1"
    "fsWrite_stage s1 (inumOfFd s fd) (fsTell s fd) (fsTell s fd div BYTESPERBLOCK)
       ((fsTell s fd + numb) div BYTESPERBLOCK) numb buf = Inr sim"
    "\<And>p. 0 \<le> p \<Longrightarrow> fsTell s fd div BYTESPERBLOCK \<le> p div BYTESPERBLOCK \<Longrightarrow>
        p div BYTESPERBLOCK \<le> (fsTell s fd + numb) div BYTESPERBLOCK \<Longrightarrow>
        fileByte s' (inumOfFd s fd) p
          = Some (sim ! nat (p - fsTell s fd div BYTESPERBLOCK * BYTESPERBLOCK))"
    "\<And>p. 0 \<le> p \<Longrightarrow> \<not> (fsTell s fd div BYTESPERBLOCK \<le> p div BYTESPERBLOCK
          \<and> p div BYTESPERBLOCK \<le> (fsTell s fd + numb) div BYTESPERBLOCK) \<Longrightarrow>
        fileByte s' (inumOfFd s fd) p = fileByte s1 (inumOfFd s fd) p"
proof -
  define inum where "inum = inumOfFd s fd"
  define c where "c = fsTell s fd"
  define left where "left = c div BYTESPERBLOCK"
  define right where "right = (c + numb) div BYTESPERBLOCK"
  have n0: "0 \<le> numb" using w by (rule fsWrite_numb)
  have sl: "c sdiv BYTESPERBLOCK = left" and sr: "(c + numb) sdiv BYTESPERBLOCK = right"
    using c0 n0 by (simp_all add: sdiv_nonneg left_def right_def c_def)
  from w obtain s1 sim s2 where
    g: "fsWrite_grow s inum c numb right = Inr s1"
    and st: "fsWrite_stage s1 inum c left right numb buf = Inr sim"
    and wl: "writeLoop s1 inum right left sim 0 = Inr s2"
    and sk: "fsSeek s2 fd numb SEEK_CUR = Inr (s', 0)"
    by (auto elim!: fsWrite_elim simp: c_def [symmetric] inum_def [symmetric] sl sr)
  have len: "stagingLen left right = right - left + 1"
    using fsWrite_span(2) [OF w c0] by (simp add: left_def right_def c_def)
  have ls: "int (length sim) = (right - left + 1) * BYTESPERBLOCK"
    using fsWrite_stage_facts(1) [OF st] by (simp add: len)
  have fb: "fblocks s' = fblocks s2" using fsSeek_Inr(3) [OF sk] .
  have byte: "fileByte s' inum p = Some (sim ! nat (p - left * BYTESPERBLOCK))"
    if p0: "0 \<le> p" and pl: "left \<le> p div BYTESPERBLOCK" and pr: "p div BYTESPERBLOCK \<le> right" for p
  proof -
    define q where "q = p div BYTESPERBLOCK"
    define j where "j = p mod BYTESPERBLOCK"
    have q0: "0 \<le> q" using p0 by (simp add: q_def div_B_nonneg)
    have j0: "0 \<le> j" "j < BYTESPERBLOCK" by (simp_all add: j_def mod_B_range)
    have al: "nat q < length (fblocks s1 inum)"
      using writeLoop_alloc [OF wl, of q] pl pr by (simp add: q_def)
    have al2: "nat q < length (fblocks s2 inum)"
      using al by (simp add: writeLoop_lengths [OF wl])
    have "left \<le> int (nat q) \<and> int (nat q) \<le> right" using q0 pl pr by (simp add: q_def)
    then have blk: "fblocks s2 inum ! nat q
        = take (nat BYTESPERBLOCK) (drop (nat ((q - left) * BYTESPERBLOCK)) sim)"
      using writeLoop_blocks [OF wl al] q0 by simp
    have off0: "0 \<le> (q - left) * BYTESPERBLOCK"
      using pl B_pos by (simp add: q_def)
    have "(q - left + 1) * BYTESPERBLOCK \<le> (right - left + 1) * BYTESPERBLOCK"
      using pr by (intro mult_B_mono) (simp add: q_def)
    then have fit: "(q - left) * BYTESPERBLOCK + BYTESPERBLOCK \<le> int (length sim)"
      by (simp add: ls algebra_simps)
    have lb: "length (fblocks s2 inum ! nat q) = nat BYTESPERBLOCK"
      using fit off0 B_pos by (simp add: blk)
    have "(q - left) * BYTESPERBLOCK + j = p - left * BYTESPERBLOCK"
      using block_bounds(3) [of p] by (simp add: q_def j_def algebra_simps)
    then have idx: "nat ((q - left) * BYTESPERBLOCK) + nat j = nat (p - left * BYTESPERBLOCK)"
      using off0 j0 by linarith
    have "fblocks s2 inum ! nat q ! nat j = sim ! (nat ((q - left) * BYTESPERBLOCK) + nat j)"
      using j0 fit off0 by (simp add: blk) 
    then have v: "fblocks s2 inum ! nat q ! nat j = sim ! nat (p - left * BYTESPERBLOCK)"
      by (simp only: idx)
    have "nat j < length (fblocks s2 inum ! nat q)" using j0 by (simp add: lb)
    then show ?thesis
      using p0 al2 v by (simp add: fileByte_def fb q_def [symmetric] j_def [symmetric])
  qed
  have other: "fileByte s' inum p = fileByte s1 inum p"
    if p0: "0 \<le> p" and out: "\<not> (left \<le> p div BYTESPERBLOCK \<and> p div BYTESPERBLOCK \<le> right)" for p
  proof -
    define q where "q = p div BYTESPERBLOCK"
    have q0: "0 \<le> q" using p0 by (simp add: q_def div_B_nonneg)
    have ll: "length (fblocks s2 inum) = length (fblocks s1 inum)"
      by (rule writeLoop_lengths [OF wl])
    show ?thesis
    proof (cases "nat q < length (fblocks s1 inum)")
      case True
      have "\<not> (left \<le> int (nat q) \<and> int (nat q) \<le> right)" using out q0 by (simp add: q_def)
      then have "fblocks s2 inum ! nat q = fblocks s1 inum ! nat q"
        using writeLoop_blocks [OF wl True] by (simp only: if_False)
      then show ?thesis by (simp add: fileByte_def fb ll q_def [symmetric])
    next
      case False
      then show ?thesis by (simp add: fileByte_def fb ll q_def [symmetric])
    qed
  qed
  show thesis
    using that [of s1 sim] g st byte other
    by (simp add: inum_def c_def left_def right_def)
qed

lemma fsWrite_grow_fileByte:
  assumes "fsWrite_grow s inum c numb right = Inr s1" and "nat (p div BYTESPERBLOCK) < length (fblocks s inum)"
  shows "fileByte s1 inum p = fileByte s inum p"
proof -
  have "length (fblocks s inum) \<le> length (fblocks s1 inum)"
    by (simp add: fsWrite_grow_length [OF assms(1)])
  then have "nat (p div BYTESPERBLOCK) < length (fblocks s1 inum)"
    using assms(2) by linarith
  then show ?thesis
    using assms(2) by (simp add: fileByte_def fsWrite_grow_old [OF assms])
qed

lemma fsWrite_committed:
  assumes w: "fsWrite s fd numb buf = Inr (s', r)" and c0: "0 \<le> fsTell s fd"
    and k: "0 \<le> k" "k < numb"
  shows "fileByte s' (inumOfFd s fd) (fsTell s fd + k) = Some (buf ! nat k)"
proof -
  define c where "c = fsTell s fd"
  define left where "left = c div BYTESPERBLOCK"
  define right where "right = (c + numb) div BYTESPERBLOCK"
  define p where "p = c + k"
  have sm: "c smod BYTESPERBLOCK = c mod BYTESPERBLOCK"
    using c0 by (simp add: smod_nonneg c_def)
  have len: "stagingLen left right = right - left + 1"
    using fsWrite_span(2) [OF w c0] by (simp add: left_def right_def c_def)
  obtain s1 sim where
    st: "fsWrite_stage s1 (inumOfFd s fd) c left right numb buf = Inr sim"
    and byte: "\<And>p. 0 \<le> p \<Longrightarrow> left \<le> p div BYTESPERBLOCK \<Longrightarrow> p div BYTESPERBLOCK \<le> right \<Longrightarrow>
        fileByte s' (inumOfFd s fd) p = Some (sim ! nat (p - left * BYTESPERBLOCK))"
    using fsWrite_blocks_obtain [OF w c0] unfolding c_def left_def right_def by metis
  have p0: "0 \<le> p" using c0 k by (simp add: p_def c_def)
  have pl: "left \<le> p div BYTESPERBLOCK" using k by (simp add: p_def left_def div_B_mono)
  have pr: "p div BYTESPERBLOCK \<le> right" using k by (simp add: p_def right_def div_B_mono)
  define m where "m = p - left * BYTESPERBLOCK"
  have cm: "c mod BYTESPERBLOCK = c - left * BYTESPERBLOCK"
    using block_bounds(3) [of c] by (simp add: left_def)
  have m0: "0 \<le> m" using cm mod_B_range(1) [of c] k by (simp add: m_def p_def)
  have "p < (right + 1) * BYTESPERBLOCK"
    using block_bounds(2) [of "c + numb"] k by (simp add: p_def right_def)
  then have mm: "m < stagingLen left right * BYTESPERBLOCK"
    by (simp add: m_def len algebra_simps)
  have inspan: "c smod BYTESPERBLOCK \<le> m \<and> m < c smod BYTESPERBLOCK + numb"
    using k by (simp add: sm cm m_def p_def)
  have mk: "m - c smod BYTESPERBLOCK = k" by (simp add: sm cm m_def p_def)
  have "sim ! nat m = buf ! nat (m - c smod BYTESPERBLOCK)"
    using fsWrite_stage_facts(11) [OF st m0 mm] by (simp only: if_P [OF inspan])
  then have "sim ! nat m = buf ! nat k" by (simp only: mk)
  then have "fileByte s' (inumOfFd s fd) p = Some (buf ! nat k)"
    using byte [OF p0 pl pr] by (simp only: m_def)
  then show ?thesis by (simp only: p_def c_def)
qed

lemma fsWrite_preserved_grown:
  assumes w: "fsWrite s fd numb buf = Inr (s', r)" and c0: "0 \<le> fsTell s fd"
    and p0: "0 \<le> p" and out: "\<not> (fsTell s fd \<le> p \<and> p < fsTell s fd + numb)"
    and g': "fsWrite_grow s (inumOfFd s fd) (fsTell s fd) numb
        ((fsTell s fd + numb) div BYTESPERBLOCK) = Inr s1'"
  shows "fileByte s' (inumOfFd s fd) p = fileByte s1' (inumOfFd s fd) p"
proof -
  define inum where "inum = inumOfFd s fd"
  define c where "c = fsTell s fd"
  define left where "left = c div BYTESPERBLOCK"
  define right where "right = (c + numb) div BYTESPERBLOCK"
  define q where "q = p div BYTESPERBLOCK"
  define j where "j = p mod BYTESPERBLOCK"
  define m where "m = p - left * BYTESPERBLOCK"
  have n0: "0 \<le> numb" using w by (rule fsWrite_numb)
  have sm: "c smod BYTESPERBLOCK = c mod BYTESPERBLOCK"
    using c0 by (simp add: smod_nonneg c_def)
  have len: "stagingLen left right = right - left + 1"
    using fsWrite_span(2) [OF w c0] by (simp add: left_def right_def c_def)
  have lr: "left \<le> right" using n0 by (simp add: left_def right_def div_B_mono)
  obtain s1 sim where
    g: "fsWrite_grow s inum c numb right = Inr s1"
    and st: "fsWrite_stage s1 inum c left right numb buf = Inr sim"
    and byte: "\<And>p. 0 \<le> p \<Longrightarrow> left \<le> p div BYTESPERBLOCK \<Longrightarrow> p div BYTESPERBLOCK \<le> right \<Longrightarrow>
        fileByte s' inum p = Some (sim ! nat (p - left * BYTESPERBLOCK))"
    and other: "\<And>p. 0 \<le> p \<Longrightarrow> \<not> (left \<le> p div BYTESPERBLOCK \<and> p div BYTESPERBLOCK \<le> right) \<Longrightarrow>
        fileByte s' inum p = fileByte s1 inum p"
    using fsWrite_blocks_obtain [OF w c0] unfolding c_def left_def right_def inum_def by metis
  have same: "s1 = s1'"
    using g g' by (simp add: inum_def c_def right_def)
  have q0: "0 \<le> q" using p0 by (simp add: q_def div_B_nonneg)
  have j0: "0 \<le> j" "j < BYTESPERBLOCK" by (simp_all add: j_def mod_B_range)
  have pq: "q * BYTESPERBLOCK \<le> p" "p < (q + 1) * BYTESPERBLOCK" "p - q * BYTESPERBLOCK = j"
    using block_bounds [of p] by (simp_all add: q_def j_def)
  have cl: "left * BYTESPERBLOCK \<le> c" "c < (left + 1) * BYTESPERBLOCK"
      "c - left * BYTESPERBLOCK = c mod BYTESPERBLOCK"
    using block_bounds [of c] by (simp_all add: left_def)
  have cr: "right * BYTESPERBLOCK \<le> c + numb"
    using block_bounds(1) [of "c + numb"] by (simp add: right_def)
  show ?thesis
  proof (cases "left \<le> q \<and> q \<le> right")
    case False
    then show ?thesis using other [OF p0] by (simp add: q_def inum_def same)
  next
    case True
    have m0: "0 \<le> m" using mult_B_mono [of left q] True pq by (simp add: m_def)
    have "(q + 1) * BYTESPERBLOCK \<le> (right + 1) * BYTESPERBLOCK"
      using True by (intro mult_B_mono) simp
    moreover have "(right - left + 1) * BYTESPERBLOCK
        = (right + 1) * BYTESPERBLOCK - left * BYTESPERBLOCK"
      by (simp add: algebra_simps)
    ultimately have "m < (right - left + 1) * BYTESPERBLOCK"
      using pq(2) unfolding m_def by linarith
    then have mm: "m < stagingLen left right * BYTESPERBLOCK"
      by (simp only: len)
    have out': "\<not> (c \<le> p \<and> p < c + numb)" using out by (simp add: c_def)
    have nospan: "\<not> (c smod BYTESPERBLOCK \<le> m \<and> m < c smod BYTESPERBLOCK + numb)"
      using out' cl(3) unfolding sm m_def by linarith
    have simv: "sim ! nat m =
        (if 1 < stagingLen left right \<and> (stagingLen left right - 1) * BYTESPERBLOCK \<le> m
           then fblocks s1 inum ! nat right ! nat (m - (stagingLen left right - 1) * BYTESPERBLOCK)
         else if m < BYTESPERBLOCK then fblocks s1 inum ! nat left ! nat m
         else 0)"
      using fsWrite_stage_facts(11) [OF st m0 mm] by (simp only: if_not_P [OF nospan])
    have b: "fileByte s' inum p = Some (sim ! nat m)"
      using byte [OF p0] True by (simp add: q_def m_def)
    consider (last) "q = right" "left < right" | (first) "q = left" | (inner) "left < q" "q < right"
      using True by linarith
    then have "fileByte s' inum p = fileByte s1 inum p"
    proof cases
      case last
      have c1: "1 < stagingLen left right \<and> (stagingLen left right - 1) * BYTESPERBLOCK \<le> m"
        using last pq by (simp add: len m_def algebra_simps)
      have "m - (stagingLen left right - 1) * BYTESPERBLOCK = j"
        using last pq by (simp add: len m_def algebra_simps)
      then have v: "sim ! nat m = fblocks s1 inum ! nat right ! nat j"
        using simv by (simp only: if_P [OF c1])
      have "BYTESPERBLOCK \<le> int (length (fblocks s1 inum ! nat right))"
        using fsWrite_stage_facts(10) [OF st] c1 by simp
      then have "nat j < length (fblocks s1 inum ! nat right)" using j0 by linarith
      moreover have al1: "nat q < length (fblocks s1 inum)"
        using fsWrite_stage_facts(10) [OF st] c1 last by simp
      ultimately show ?thesis
        using b v al1 p0 last by (simp add: fileByte_def q_def [symmetric] j_def [symmetric])
    next
      case first
      have mj: "m = j" using first pq by (simp add: m_def)
      have c1: "\<not> (1 < stagingLen left right \<and> (stagingLen left right - 1) * BYTESPERBLOCK \<le> m)"
      proof
        assume a: "1 < stagingLen left right \<and> (stagingLen left right - 1) * BYTESPERBLOCK \<le> m"
        then have "1 \<le> right - left" by (simp add: len)
        then have "1 * BYTESPERBLOCK \<le> (right - left) * BYTESPERBLOCK" by (rule mult_B_mono)
        with a j0 show False by (simp add: len mj)
      qed
      have c2: "m < BYTESPERBLOCK" using j0 by (simp add: mj)
      have "sim ! nat m = fblocks s1 inum ! nat left ! nat m"
        using simv by (simp only: if_not_P [OF c1] if_P [OF c2])
      then have v: "sim ! nat m = fblocks s1 inum ! nat left ! nat j"
        using mj by simp
      have "BYTESPERBLOCK \<le> int (length (fblocks s1 inum ! nat left))"
        by (rule fsWrite_stage_facts(9) [OF st])
      then have "nat j < length (fblocks s1 inum ! nat left)" using j0 by linarith
      moreover have al1: "nat q < length (fblocks s1 inum)"
        using fsWrite_stage_facts(8) [OF st] first by simp
      ultimately show ?thesis
        using b v al1 p0 first by (simp add: fileByte_def q_def [symmetric] j_def [symmetric])
    next
      case inner
      have "(left + 1) * BYTESPERBLOCK \<le> q * BYTESPERBLOCK"
        using inner by (intro mult_B_mono) simp
      then have "c \<le> p" using cl pq by linarith
      moreover have "(q + 1) * BYTESPERBLOCK \<le> right * BYTESPERBLOCK"
        using inner by (intro mult_B_mono) simp
      then have "p < c + numb" using cr pq by linarith
      ultimately show ?thesis using out' by simp
    qed
    then show ?thesis by (simp add: inum_def same)
  qed
qed

lemma fsWrite_preserved:
  assumes w: "fsWrite s fd numb buf = Inr (s', r)" and c0: "0 \<le> fsTell s fd"
    and p0: "0 \<le> p" and out: "\<not> (fsTell s fd \<le> p \<and> p < fsTell s fd + numb)"
    and al: "nat (p div BYTESPERBLOCK) < length (fblocks s (inumOfFd s fd))"
  shows "fileByte s' (inumOfFd s fd) p = fileByte s (inumOfFd s fd) p"
proof -
  obtain s1 where g: "fsWrite_grow s (inumOfFd s fd) (fsTell s fd) numb
      ((fsTell s fd + numb) div BYTESPERBLOCK) = Inr s1"
    using fsWrite_blocks_obtain [OF w c0] by metis
  have "fileByte s' (inumOfFd s fd) p = fileByte s1 (inumOfFd s fd) p"
    by (rule fsWrite_preserved_grown [OF w c0 p0 out g])
  also have "\<dots> = fileByte s (inumOfFd s fd) p"
    by (rule fsWrite_grow_fileByte [OF g al])
  finally show ?thesis .
qed

section \<open>Seek, tell and size\<close>

text \<open>
  C7. \<^verbatim>\<open>fsSeek\<close> aborts exactly when the offset argument is negative or \<^verbatim>\<open>whence\<close> is
  none of \<^verbatim>\<open>SEEK_SET\<close>, \<^verbatim>\<open>SEEK_CUR\<close>, \<^verbatim>\<open>SEEK_END\<close>; the computed cursor is never
  checked. Otherwise it returns 0 and leaves in the cursor the 32 bits of the offset, of
  the old cursor plus the offset, or of the file size plus the offset, and \<^verbatim>\<open>fsTell\<close> then
  returns that cursor: it is the offset or the sum itself whenever that fits in an
  \<^verbatim>\<open>i32\<close>.
\<close>

theorem fsSeek_then_fsTell:
  "((\<exists>e. fsSeek s fd offset whence = Inl e)
      \<longleftrightarrow> offset < 0 \<or> whence \<notin> {SEEK_SET, SEEK_CUR, SEEK_END})
   \<and> (\<forall>s' r. fsSeek s fd offset whence = Inr (s', r) \<longrightarrow>
          r = 0
          \<and> fsTell s' fd =
              i32 (if whence = SEEK_SET then offset
                   else if whence = SEEK_CUR then fsTell s fd + offset
                   else fsSize s fd + offset)
          \<and> (whence = SEEK_SET \<and> offset \<le> 2147483647 \<longrightarrow> fsTell s' fd = offset)
          \<and> (whence = SEEK_CUR \<and> fsTell s fd + offset \<le> 2147483647 \<longrightarrow>
                fsTell s' fd = fsTell s fd + offset)
          \<and> (whence = SEEK_END \<and> - 2147483648 \<le> fsSize s fd + offset
                \<and> fsSize s fd + offset \<le> 2147483647 \<longrightarrow>
                fsTell s' fd = fsSize s fd + offset))"
proof -
  have a: "(\<exists>e. fsSeek s fd offset whence = Inl e)
      \<longleftrightarrow> offset < 0 \<or> whence \<notin> {SEEK_SET, SEEK_CUR, SEEK_END}"
    by (auto simp: fsSeek_def Let_def)
  have b: "r = 0 \<and> fsTell s' fd =
      i32 (if whence = SEEK_SET then offset
           else if whence = SEEK_CUR then fsTell s fd + offset
           else fsSize s fd + offset)"
    if "fsSeek s fd offset whence = Inr (s', r)" for s' r
    using that
    by (auto simp: fsSeek_def Let_def fsTell_def fsSize_def bfsTell_def bfsFdToInum_def
        bfsFindOFTE_def bfsGetSize_def SEEK_SET_def SEEK_CUR_def SEEK_END_def
        sint_add_word_of_int sint_word_of_int_i32 simp del: of_int_add split: if_splits)
  have c: "i32 offset = offset"
    if "fsSeek s fd offset whence = Inr (s', r)" "offset \<le> 2147483647" for s' r
    using that fsSeek_Inr(7) [OF that(1)] by (intro i32_id) simp_all
  have d: "i32 (fsTell s fd + offset) = fsTell s fd + offset"
    if "fsSeek s fd offset whence = Inr (s', r)" "fsTell s fd + offset \<le> 2147483647" for s' r
    using that fsSeek_Inr(7) [OF that(1)]
      sint32_range(1) [of "g_oft s (bfsFindOFTE s (bfsFdToInum s fd))"]
    by (intro i32_id) (simp_all add: fsTell_def bfsTell_def)
  have n: "SEEK_CUR \<noteq> SEEK_SET" "SEEK_END \<noteq> SEEK_SET" "SEEK_END \<noteq> SEEK_CUR"
    by (simp_all add: SEEK_SET_def SEEK_CUR_def SEEK_END_def)
  show ?thesis
  proof (intro conjI allI impI)
    show "(\<exists>e. fsSeek s fd offset whence = Inl e)
        \<longleftrightarrow> offset < 0 \<or> whence \<notin> {SEEK_SET, SEEK_CUR, SEEK_END}"
      by (rule a)
  next
    fix s' r assume "fsSeek s fd offset whence = Inr (s', r)"
    then show "r = 0" using b by blast
  next
    fix s' r assume "fsSeek s fd offset whence = Inr (s', r)"
    then show "fsTell s' fd =
        i32 (if whence = SEEK_SET then offset
             else if whence = SEEK_CUR then fsTell s fd + offset
             else fsSize s fd + offset)"
      using b by blast
  next
    fix s' r assume k: "fsSeek s fd offset whence = Inr (s', r)"
      and h: "whence = SEEK_SET \<and> offset \<le> 2147483647"
    from b [OF k] c [OF k] h show "fsTell s' fd = offset" by simp
  next
    fix s' r assume k: "fsSeek s fd offset whence = Inr (s', r)"
      and h: "whence = SEEK_CUR \<and> fsTell s fd + offset \<le> 2147483647"
    from b [OF k] d [OF k] h n show "fsTell s' fd = fsTell s fd + offset" by simp
  next
    fix s' r assume k: "fsSeek s fd offset whence = Inr (s', r)"
      and h: "whence = SEEK_END \<and> - 2147483648 \<le> fsSize s fd + offset
                \<and> fsSize s fd + offset \<le> 2147483647"
    from b [OF k] h n show "fsTell s' fd = fsSize s fd + offset" by (simp add: i32_id)
  qed
qed

theorem fsSeek_then_fsTell_witness:
  "fsSeek (uniformFs 10 100 []) 3 5 SEEK_CUR
     = Inr ((uniformFs 10 100 [])\<lparr>g_oft := (g_oft (uniformFs 10 100 []))(3 := 15)\<rparr>, 0)
   \<and> fsTell ((uniformFs 10 100 [])\<lparr>g_oft := (g_oft (uniformFs 10 100 []))(3 := 15)\<rparr>) 3 = 15"
proof -
  have e: "fsSeek (uniformFs 10 100 []) 3 5 SEEK_CUR
     = Inr ((uniformFs 10 100 [])\<lparr>g_oft := (g_oft (uniformFs 10 100 []))(3 := 15)\<rparr>, 0)"
    by (simp add: fsSeek_CUR uniformFs_def)
  have t: "fsTell (uniformFs 10 100 []) 3 = 10"
    by (simp add: fsTell_def bfsTell_def bfsFdToInum_def bfsFindOFTE_def uniformFs_def)
  from fsSeek_then_fsTell [of "uniformFs 10 100 []" 3 5 SEEK_CUR] e t show ?thesis
    by (simp add: SEEK_SET_def SEEK_CUR_def)
qed

text \<open>
  C7, the run on which the cursor is not the sum: after \<^verbatim>\<open>fsSeek(3, 2147483647, SEEK_SET)\<close>
  the cursor is 2147483647, and \<^verbatim>\<open>fsSeek(3, 1, SEEK_CUR)\<close> returns 0 with the cursor at
  \<open>- 2147483648\<close>, not at 2147483648.
\<close>

theorem fsSeek_past_i32_counterexample:
  "fsSeek (emptyFs 0) 3 2147483647 SEEK_SET
     = Inr ((emptyFs 0)\<lparr>g_oft := (g_oft (emptyFs 0))(3 := 2147483647)\<rparr>, 0)
   \<and> fsTell ((emptyFs 0)\<lparr>g_oft := (g_oft (emptyFs 0))(3 := 2147483647)\<rparr>) 3 = 2147483647
   \<and> fsSeek ((emptyFs 0)\<lparr>g_oft := (g_oft (emptyFs 0))(3 := 2147483647)\<rparr>) 3 1 SEEK_CUR
     = Inr ((emptyFs 0)\<lparr>g_oft := (g_oft (emptyFs 0))(3 := 2147483648)\<rparr>, 0)
   \<and> fsTell ((emptyFs 0)\<lparr>g_oft := (g_oft (emptyFs 0))(3 := 2147483648)\<rparr>) 3 = - 2147483648
   \<and> fsTell ((emptyFs 0)\<lparr>g_oft := (g_oft (emptyFs 0))(3 := 2147483648)\<rparr>) 3
       \<noteq> fsTell ((emptyFs 0)\<lparr>g_oft := (g_oft (emptyFs 0))(3 := 2147483647)\<rparr>) 3 + 1"
  by (simp add: fsSeek_def Let_def SEEK_SET_def SEEK_CUR_def fsTell_def bfsTell_def
      bfsFdToInum_def bfsFindOFTE_def emptyFs_def)







section \<open>Properties of fsWrite\<close>

lemma wholeBlocks_replicate: "wholeBlocks (replicate n (replicate 512 x))"
  by (simp add: wholeBlocks_def list_all_iff BYTESPERBLOCK_def)

lemma wholeBlocks_Nil: "wholeBlocks []"
  by (simp add: wholeBlocks_def)

lemma wholeBlocks_Cons: "wholeBlocks (b # bs) \<longleftrightarrow> int (length b) = BYTESPERBLOCK \<and> wholeBlocks bs"
  by (simp add: wholeBlocks_def)




text \<open>
  C10. A returning \<^verbatim>\<open>fsWrite\<close> of zero bytes with the cursor \<open>c\<close> beyond the size of the file
  grows the file: the size becomes \<open>c\<close> and the file has blocks up to file block
  \<open>c div BYTESPERBLOCK\<close>, while the cursor stays at \<open>c\<close> and every byte of the blocks the
  file had keeps its value.
\<close>

theorem fsWrite_zero_bytes_grows:
  assumes "fsWrite s fd 0 buf = Inr (s', r)" and "0 \<le> fsTell s fd"
    and "fsSize s fd < fsTell s fd"
  shows "fsSize s' fd = fsTell s fd
       \<and> length (fblocks s' (bfsFdToInum s fd))
           = max (length (fblocks s (bfsFdToInum s fd))) (nat (fsTell s fd div BYTESPERBLOCK + 1))
       \<and> fsTell s' fd = fsTell s fd
       \<and> (\<forall>p. 0 \<le> p \<and> nat (p div BYTESPERBLOCK) < length (fblocks s (bfsFdToInum s fd)) \<longrightarrow>
            fileByte s' (bfsFdToInum s fd) p = fileByte s (bfsFdToInum s fd) p)"
proof -
  have sr: "fsTell s fd sdiv BYTESPERBLOCK = fsTell s fd div BYTESPERBLOCK"
    using assms(2) by (simp add: sdiv_nonneg)
  have a: "fsSize s' fd = fsTell s fd"
    using fsWrite_isize [OF assms(1)] fsWrite_tables(1) [OF assms(1)] assms(3)
    by (simp add: fsSize_def bfsGetSize_def bfsFdToInum_def)
  have b: "length (fblocks s' (bfsFdToInum s fd))
      = max (length (fblocks s (bfsFdToInum s fd))) (nat (fsTell s fd div BYTESPERBLOCK + 1))"
    using fsWrite_nblocks [OF assms(1)] assms(3)
    by (simp add: fsSize_def bfsGetSize_def bfsFdToInum_def sr)
  have c: "fsTell s' fd = fsTell s fd"
    using fsWrite_cursor [OF assms(1)] by (simp add: i32_fsTell)
  have d: "fileByte s' (bfsFdToInum s fd) p = fileByte s (bfsFdToInum s fd) p"
    if "0 \<le> p" "nat (p div BYTESPERBLOCK) < length (fblocks s (bfsFdToInum s fd))" for p
    using fsWrite_preserved [OF assms(1,2) that(1)] that(2) by (simp add: bfsFdToInum_def)
  from a b c d show ?thesis by blast
qed

theorem fsWrite_zero_bytes_grows_witness:
  "(case fsWrite ((emptyFs 2)\<lparr>g_oft := (\<lambda>ofte. 1000)\<rparr>) 3 0 [] of
      Inl e \<Rightarrow> False
    | Inr (s', r) \<Rightarrow> fsSize s' 3 = 1000 \<and> length (fblocks s' 3) = 2 \<and> fsTell s' 3 = 1000)"
proof -
  define s where "s = (emptyFs 2)\<lparr>g_oft := (\<lambda>ofte. 1000)\<rparr>"
  have "write_ok s 3 0 []"
    by (simp add: write_ok_def Let_def bfsFdToInum_def bfsTell_def bfsFindOFTE_def bfsGetSize_def
        wholeBlocks_replicate wholeBlocks_Nil wholeBlocks_Cons emptyFs_def BYTESPERBLOCK_def s_def)
  then obtain s' where w: "fsWrite s 3 0 [] = Inr (s', 0)"
    using fsWrite_succeeds by blast
  have t: "fsTell s 3 = 1000" "fsSize s 3 = 0" "bfsFdToInum s 3 = 3" "fblocks s 3 = []"
    by (simp_all add: fsTell_def fsSize_def bfsTell_def bfsFdToInum_def bfsFindOFTE_def
        bfsGetSize_def emptyFs_def s_def)
  have d: "(1000::int) div BYTESPERBLOCK = 1" by (simp add: BYTESPERBLOCK_def)
  from fsWrite_zero_bytes_grows [OF w] have
    "fsSize s' 3 = 1000 \<and> length (fblocks s' 3) = 2 \<and> fsTell s' 3 = 1000"
    by (simp add: t d)
  then show ?thesis by (simp add: w s_def [symmetric])
qed

text \<open>
  C6, as amended. Whenever \<^verbatim>\<open>fsWrite\<close> returns, it returns 0, whatever \<open>numb\<close> was.
\<close>

theorem fsWrite_returns_zero:
  "fsWrite s fd numb buf = Inr (s', r) \<Longrightarrow> r = 0"
  by (rule fsWrite_ret)

theorem fsWrite_returns_zero_witness:
  "(case fsWrite (emptyFs 1) 3 1 [7] of Inl e \<Rightarrow> False | Inr (s', r) \<Rightarrow> r = 0)"
proof -
  have "write_ok (emptyFs 1) 3 1 [7]"
    by (simp add: write_ok_def Let_def bfsFdToInum_def bfsTell_def bfsFindOFTE_def bfsGetSize_def
        wholeBlocks_replicate wholeBlocks_Nil wholeBlocks_Cons emptyFs_def BYTESPERBLOCK_def)
  then obtain s' r where w: "fsWrite (emptyFs 1) 3 1 [7] = Inr (s', r)"
    using fsWrite_succeeds by blast
  from fsWrite_returns_zero [OF w] w show ?thesis by simp
qed

text \<open>
  C6 as stated fails: a write of one byte returns 0, not 1.
\<close>

theorem fsWrite_returns_numb_counterexample:
  "fsWrite_returned (emptyFs 1) 3 1 [7] = Some 0 \<and> fsWrite_returned (emptyFs 1) 3 1 [7] \<noteq> Some 1"
proof -
  have "write_ok (emptyFs 1) 3 1 [7]"
    by (simp add: write_ok_def Let_def bfsFdToInum_def bfsTell_def bfsFindOFTE_def bfsGetSize_def
        wholeBlocks_replicate wholeBlocks_Nil wholeBlocks_Cons emptyFs_def BYTESPERBLOCK_def)
  then obtain s' where w: "fsWrite (emptyFs 1) 3 1 [7] = Inr (s', 0)"
    using fsWrite_succeeds by blast
  then show ?thesis by (simp add: fsWrite_returned_def)
qed



section \<open>What fsRead returns and how much it copies\<close>

text \<open>The count after the clamp of lines 97--101.\<close>

lemma fsRead_copy_clamped:
  assumes "fsRead_copy s fd numb buf = Inr (b, copied, n)"
  shows "n = (if fsSize s fd < i32 (numb + fsTell s fd) then i32 (fsSize s fd - fsTell s fd)
              else numb)"
  using assms
  by (auto simp: fsRead_copy_def Let_def fsSize_def fsTell_def split: if_splits sum.splits prod.splits)

lemma fsRead_returns:
  assumes "fsRead s fd numb buf = Inr (s', b, r)"
  shows "r = (if fsSize s fd < i32 (numb + fsTell s fd) then i32 (fsSize s fd - fsTell s fd)
              else numb)"
    and "0 \<le> r" and "fsTell s' fd = i32 (fsTell s fd + r)"
proof -
  from assms obtain copied s2 r2 where c: "fsRead_copy s fd numb buf = Inr (b, copied, r)"
    and k: "fsSeek s fd r SEEK_CUR = Inr (s', r2)"
    by (auto simp: fsRead_def split: sum.splits prod.splits)
  show "r = (if fsSize s fd < i32 (numb + fsTell s fd) then i32 (fsSize s fd - fsTell s fd)
             else numb)"
    using c by (rule fsRead_copy_clamped)
  show "0 \<le> r" using k by (rule fsSeek_Inr(7))
  from k show "fsTell s' fd = i32 (fsTell s fd + r)"
    by (auto simp: fsSeek_CUR fsTell_def bfsTell_def bfsFdToInum_def bfsFindOFTE_def
        sint_add_word_of_int split: if_splits)
qed

text \<open>
  With the cursor beyond the size of the file no read returns, as long as the end of the
  range, \<open>numb + cursor\<close>, fits in an \<^verbatim>\<open>i32\<close>.
\<close>

lemma fsRead_beyond_size:
  assumes "fsSize s fd < fsTell s fd" and "0 \<le> numb" and "0 \<le> fsSize s fd"
    and "numb + fsTell s fd \<le> 2147483647"
  shows "\<exists>e. fsRead s fd numb buf = Inl e"
proof (cases "fsRead s fd numb buf")
  case (Inl e)
  then show ?thesis by blast
next
  case (Inr x)
  obtain s' b r where "x = (s', b, r)" by (cases x)
  with Inr have w: "fsRead s fd numb buf = Inr (s', b, r)" by simp
  have "i32 (numb + fsTell s fd) = numb + fsTell s fd"
    using assms by (intro i32_id) simp_all
  moreover have "i32 (fsSize s fd - fsTell s fd) = fsSize s fd - fsTell s fd"
    using assms sint32_range(2) [of "g_oft s (bfsFindOFTE s (bfsFdToInum s fd))"]
    by (intro i32_id) (simp_all add: fsTell_def bfsTell_def)
  ultimately have False
    using fsRead_returns(1,2) [OF w] assms by (simp split: if_splits)
  then show ?thesis ..
qed

text \<open>
  The running \<^verbatim>\<open>offset\<close> of the multi-block loop: after the first block every block adds
  \<^verbatim>\<open>BYTESPERBLOCK\<close>, except the last, which adds \<^verbatim>\<open>numb % BYTESPERBLOCK\<close> when that is not 0.
\<close>

lemma readLoop_offset_tail:
  "readLoop s inum c numb left right i buf off = Inr (b, off') \<Longrightarrow> left < i \<Longrightarrow> i \<le> right \<Longrightarrow>
     off' = off + (right - i) * BYTESPERBLOCK
       + (if numb smod BYTESPERBLOCK \<noteq> 0 then numb smod BYTESPERBLOCK else BYTESPERBLOCK)"
proof (induction s inum c numb left right i buf off rule: readLoop.induct)
  case (1 s currInum currCursor numb left right i buf offset)
  define x where "x = (if i = left then currCursor smod BYTESPERBLOCK else 0)"
  define xa where "xa = (if i = left then BYTESPERBLOCK - x else BYTESPERBLOCK)"
  define n where "n = (if i = right \<and> numb smod BYTESPERBLOCK \<noteq> 0
      then numb smod BYTESPERBLOCK else xa)"
  from "1.prems" obtain tempBuf buf' where
    r: "bfsRead s currInum i = Inr tempBuf"
    and m: "memcpy buf offset tempBuf x n = Inr buf'"
    and l: "readLoop s currInum currCursor numb left right (i + 1) buf' (offset + n) = Inr (b, off')"
    by (subst (asm) readLoop.simps) (auto simp: Let_def n_def x_def xa_def split: sum.splits if_splits)
  have i: "i \<le> right" using "1.prems" by simp
  have xa: "xa = BYTESPERBLOCK" using "1.prems" by (simp add: xa_def)
  show ?case
  proof (cases "i = right")
    case True
    then have "off' = offset + n" using l by (subst (asm) readLoop.simps) simp
    then show ?thesis using True by (simp add: n_def xa)
  next
    case False
    then have lt: "left < i + 1" "i + 1 \<le> right" using "1.prems" by simp_all
    have n: "n = BYTESPERBLOCK" using False by (simp add: n_def xa)
    have "off' = offset + n + (right - (i + 1)) * BYTESPERBLOCK
       + (if numb smod BYTESPERBLOCK \<noteq> 0 then numb smod BYTESPERBLOCK else BYTESPERBLOCK)"
      by (rule "1.IH" [OF i r x_def xa_def n_def m l lt])
    then show ?thesis by (simp add: n algebra_simps)
  qed
qed

lemma readLoop_offset:
  assumes "readLoop s inum c numb left right left buf 0 = Inr (b, off')" and "left < right"
  shows "off' = (BYTESPERBLOCK - c smod BYTESPERBLOCK) + (right - left - 1) * BYTESPERBLOCK
       + (if numb smod BYTESPERBLOCK \<noteq> 0 then numb smod BYTESPERBLOCK else BYTESPERBLOCK)"
proof -
  define n where "n = BYTESPERBLOCK - c smod BYTESPERBLOCK"
  from assms obtain tempBuf buf' where
    l: "readLoop s inum c numb left right (left + 1) buf' (0 + n) = Inr (b, off')"
    by (subst (asm) readLoop.simps) (auto simp: Let_def n_def split: sum.splits if_splits)
  have "off' = 0 + n + (right - (left + 1)) * BYTESPERBLOCK
       + (if numb smod BYTESPERBLOCK \<noteq> 0 then numb smod BYTESPERBLOCK else BYTESPERBLOCK)"
    using readLoop_offset_tail [OF l] assms(2) by simp
  then show ?thesis by (simp add: n_def algebra_simps)
qed

text \<open>
  The number of bytes the multi-block path copies, against the clamped count it returns:
  they differ by the length the code gives the last segment minus the length it should
  have, \<open>(c + numb) mod BYTESPERBLOCK\<close>.
\<close>

lemma fsRead_copy_multi_block:
  assumes r: "fsRead_copy s fd numb0 buf = Inr (b, copied, numb)"
    and c0: "0 \<le> fsTell s fd" and n0: "0 \<le> numb"
    and multi: "fsTell s fd div BYTESPERBLOCK \<noteq> (fsTell s fd + numb) div BYTESPERBLOCK"
    and fit: "fsTell s fd + numb \<le> 2147483647"
  shows "copied = numb
      + (if numb mod BYTESPERBLOCK \<noteq> 0 then numb mod BYTESPERBLOCK else BYTESPERBLOCK)
      - (fsTell s fd + numb) mod BYTESPERBLOCK"
proof -
  define c where "c = fsTell s fd"
  define left where "left = c div BYTESPERBLOCK"
  define right where "right = (c + numb) div BYTESPERBLOCK"
  have cl: "numb = (if fsSize s fd < i32 (numb0 + c) then i32 (fsSize s fd - c) else numb0)"
    using fsRead_copy_clamped [OF r] by (simp add: c_def)
  have w32: "i32 (c + numb) = c + numb"
    using c0 n0 fit by (intro i32_id) (simp_all add: c_def)
  have c0': "0 \<le> c" using c0 by (simp add: c_def)
  have sl: "c sdiv BYTESPERBLOCK = left" "i32 (c + numb) sdiv BYTESPERBLOCK = right"
    "c smod BYTESPERBLOCK = c mod BYTESPERBLOCK" "numb smod BYTESPERBLOCK = numb mod BYTESPERBLOCK"
    using c0' n0 by (simp_all add: w32 sdiv_nonneg smod_nonneg left_def right_def)
  have lr: "left < right"
    using multi div_B_mono [of c "c + numb"] n0 by (simp add: left_def right_def c_def)
  have e: "(if fsSize s fd < i32 (numb0 + c)
      then i32 (c + i32 (fsSize s fd - c)) sdiv BYTESPERBLOCK
      else i32 (c + numb0) sdiv BYTESPERBLOCK) = right"
    using cl sl(2) by (simp split: if_splits)
  have "readLoop s (inumOfFd s fd) c numb left right left buf 0 = Inr (b, copied)"
    using r lr cl e
    by (auto simp: fsRead_copy_def Let_def fsSize_def fsTell_def [symmetric]
          c_def [symmetric] sl(1,3,4) bfsFdToInum_def
        split: if_splits sum.splits prod.splits)
  from readLoop_offset [OF this lr]
  have o: "copied = (BYTESPERBLOCK - c mod BYTESPERBLOCK) + (right - left - 1) * BYTESPERBLOCK
       + (if numb mod BYTESPERBLOCK \<noteq> 0 then numb mod BYTESPERBLOCK else BYTESPERBLOCK)"
    by (simp add: sl)
  have "c = left * BYTESPERBLOCK + c mod BYTESPERBLOCK"
    using block_bounds(3) [of c] by (simp add: left_def)
  moreover have "c + numb = right * BYTESPERBLOCK + (c + numb) mod BYTESPERBLOCK"
    using block_bounds(3) [of "c + numb"] by (simp add: right_def)
  moreover have "(right - left - 1) * BYTESPERBLOCK
      = right * BYTESPERBLOCK - left * BYTESPERBLOCK - BYTESPERBLOCK"
    by (simp add: algebra_simps)
  ultimately have "(BYTESPERBLOCK - c mod BYTESPERBLOCK) + (right - left - 1) * BYTESPERBLOCK
      = numb - (c + numb) mod BYTESPERBLOCK"
    by linarith
  with o show ?thesis by (simp add: c_def)
qed

text \<open>
  The single-block path of \<^verbatim>\<open>fsRead\<close> copies exactly the clamped count, and what it copies
  are the bytes of the file from the cursor on.
\<close>

lemma fsRead_copy_one_block:
  assumes r: "fsRead_copy s fd numb0 buf = Inr (b, copied, numb)"
    and c0: "0 \<le> fsTell s fd" and n0: "0 \<le> numb"
    and one: "fsTell s fd div BYTESPERBLOCK = (fsTell s fd + numb) div BYTESPERBLOCK"
    and fit: "fsTell s fd + numb \<le> 2147483647"
  shows "copied = numb" and "length b = length buf"
    and "\<And>k. 0 \<le> k \<Longrightarrow> k < numb \<Longrightarrow>
          fileByte s (inumOfFd s fd) (fsTell s fd + k) = Some (b ! nat k)"
    and "\<And>k. numb \<le> k \<Longrightarrow> k < int (length buf) \<Longrightarrow> b ! nat k = buf ! nat k"
proof -
  define c where "c = fsTell s fd"
  define inum where "inum = inumOfFd s fd"
  define left where "left = c div BYTESPERBLOCK"
  have cl: "numb = (if fsSize s fd < i32 (numb0 + c) then i32 (fsSize s fd - c) else numb0)"
    using fsRead_copy_clamped [OF r] by (simp add: c_def)
  have w32: "i32 (c + numb) = c + numb"
    using c0 n0 fit by (intro i32_id) (simp_all add: c_def)
  have c0': "0 \<le> c" using c0 by (simp add: c_def)
  have sl: "c sdiv BYTESPERBLOCK = left" "i32 (c + numb) sdiv BYTESPERBLOCK = left"
    "c smod BYTESPERBLOCK = c mod BYTESPERBLOCK"
    using c0' n0 one by (simp_all add: w32 sdiv_nonneg smod_nonneg left_def c_def [symmetric])
  have e: "(if fsSize s fd < i32 (numb0 + c)
      then i32 (c + i32 (fsSize s fd - c)) sdiv BYTESPERBLOCK
      else i32 (c + numb0) sdiv BYTESPERBLOCK) = left"
    using cl sl(2) by (simp split: if_splits)
  have "\<exists>tempBuf. bfsRead s inum left = Inr tempBuf
      \<and> memcpy buf 0 tempBuf (c mod BYTESPERBLOCK) numb = Inr b \<and> copied = numb"
    using r cl e
    by (auto simp: fsRead_copy_def Let_def fsSize_def fsTell_def [symmetric]
          c_def [symmetric] inum_def [symmetric] sl(1,3) bfsFdToInum_def
        split: if_splits sum.splits prod.splits)
  then obtain tempBuf where rd: "bfsRead s inum left = Inr tempBuf"
    and m: "memcpy buf 0 tempBuf (c mod BYTESPERBLOCK) numb = Inr b" and cp: "copied = numb"
    by blast
  show "copied = numb" by (rule cp)
  show "length b = length buf" using m by (rule memcpy_length)
  have tb: "tempBuf = fblocks s inum ! nat left" and l0: "0 \<le> left"
    and la: "nat left < length (fblocks s inum)"
    using rd by (simp_all add: bfsRead_Inr)
  have fit: "c mod BYTESPERBLOCK + numb \<le> int (length tempBuf)" "numb \<le> int (length buf)"
    using m by (simp_all add: memcpy_Inr_iff)
  show "fileByte s (inumOfFd s fd) (fsTell s fd + k) = Some (b ! nat k)"
    if k: "0 \<le> k" "k < numb" for k
  proof -
    have kb: "k < int (length buf)" using k fit by linarith
    have "b ! nat k = tempBuf ! nat (c mod BYTESPERBLOCK + (k - 0))"
      using memcpy_nth_int [OF m k(1) kb] k by simp
    then have v: "b ! nat k = tempBuf ! nat (c mod BYTESPERBLOCK + k)" by simp
    have "left \<le> (c + k) div BYTESPERBLOCK" using k by (simp add: left_def div_B_mono)
    moreover have "(c + k) div BYTESPERBLOCK \<le> (c + numb) div BYTESPERBLOCK"
      using k by (intro div_B_mono) simp
    ultimately have q: "(c + k) div BYTESPERBLOCK = left"
      using one by (simp add: c_def left_def)
    have "c + k - left * BYTESPERBLOCK = (c + k) mod BYTESPERBLOCK"
      using block_bounds(3) [of "c + k"] by (simp add: q)
    moreover have "c - left * BYTESPERBLOCK = c mod BYTESPERBLOCK"
      using block_bounds(3) [of c] by (simp add: left_def)
    ultimately have j: "(c + k) mod BYTESPERBLOCK = c mod BYTESPERBLOCK + k" by linarith
    have "nat (c mod BYTESPERBLOCK + k) < length tempBuf"
      using fit k mod_B_range(1) [of c] by linarith
    moreover have "0 \<le> c + k" using c0 k by (simp add: c_def)
    ultimately have "fileByte s inum (c + k) = Some (tempBuf ! nat (c mod BYTESPERBLOCK + k))"
      using la by (simp add: fileByte_def q j tb)
    then show ?thesis by (simp add: v c_def inum_def)
  qed
  show "b ! nat k = buf ! nat k" if k: "numb \<le> k" "k < int (length buf)" for k
  proof -
    have "0 \<le> k" using k n0 by simp
    from memcpy_nth_int [OF m this k(2)] k show ?thesis by simp
  qed
qed

lemma fsSeek_SET:
  "fsSeek s fd offset SEEK_SET =
     (if offset < 0 then Inl EBADCURS
      else Inr (s\<lparr>g_oft := (g_oft s)(ofteOf s (inumOfFd s fd) := word_of_int offset)\<rparr>, 0))"
  by (simp add: fsSeek_def Let_def bfsFdToInum_def bfsFindOFTE_def)

text \<open>
  Where the round trip does hold: a write whose range lies within one block, a seek back
  and a read of the same count return the bytes written and leave the rest of the
  caller's buffer alone.
\<close>

lemma roundtrip_within_one_block:
  assumes w: "fsWrite s fd numb wbuf = Inr (s1, r1)"
    and c0: "0 \<le> fsTell s fd"
    and one: "fsTell s fd div BYTESPERBLOCK = (fsTell s fd + numb) div BYTESPERBLOCK"
    and fit: "fsTell s fd + numb \<le> 2147483647"
    and k: "fsSeek s1 fd (fsTell s fd) SEEK_SET = Inr (s2, r2)"
    and r: "fsRead s2 fd numb rbuf = Inr (s3, b, r3)"
  shows "r3 = numb" and "length b = length rbuf"
    and "\<And>i. 0 \<le> i \<Longrightarrow> i < numb \<Longrightarrow> b ! nat i = wbuf ! nat i"
    and "\<And>i. numb \<le> i \<Longrightarrow> i < int (length rbuf) \<Longrightarrow> b ! nat i = rbuf ! nat i"
proof -
  define c where "c = fsTell s fd"
  define inum where "inum = inumOfFd s fd"
  have n0: "0 \<le> numb" using w by (rule fsWrite_numb)
  have t1: "inumOfFd s1 = inumOfFd s" "ofteOf s1 = ofteOf s"
    using fsWrite_tables [OF w] by simp_all
  have z1: "c + numb \<le> isize s1 inum"
    using fsWrite_isize [OF w] by (simp add: c_def inum_def)
  have s2: "s2 = s1\<lparr>g_oft := (g_oft s1)(ofteOf s1 (inumOfFd s1 fd) := word_of_int c)\<rparr>"
    using k c0 by (simp add: fsSeek_SET c_def)
  have cs: "sint (word_of_int c :: 32 word) = c"
    by (simp add: c_def fsTell_def bfsTell_def)
  have t2: "fsTell s2 fd = c" "inumOfFd s2 fd = inum" "fsSize s2 fd = isize s1 inum"
    "fblocks s2 = fblocks s1"
    by (simp_all add: s2 t1 fsTell_def fsSize_def bfsTell_def bfsGetSize_def bfsFdToInum_def
        bfsFindOFTE_def inum_def cs)
  from r obtain copied where cp: "fsRead_copy s2 fd numb rbuf = Inr (b, copied, r3)"
    by (auto simp: fsRead_def split: sum.splits prod.splits)
  have w32: "i32 (numb + c) = numb + c"
    using c0 n0 fit by (intro i32_id) (simp_all add: c_def)
  have r3: "r3 = numb"
    using fsRead_copy_clamped [OF cp] z1 by (simp add: t2 w32)
  show "r3 = numb" by (rule r3)
  have c2: "0 \<le> fsTell s2 fd" using c0 by (simp add: t2 c_def)
  have one2: "fsTell s2 fd div BYTESPERBLOCK = (fsTell s2 fd + numb) div BYTESPERBLOCK"
    using one by (simp add: t2 c_def)
  have fit2: "fsTell s2 fd + numb \<le> 2147483647"
    using fit by (simp add: t2 c_def)
  note f = fsRead_copy_one_block [OF cp [unfolded r3] c2 n0 one2 fit2]
  show "length b = length rbuf" by (rule f(2))
  show "b ! nat i = rbuf ! nat i" if "numb \<le> i" "i < int (length rbuf)" for i
    using f(4) [OF that] .
  show "b ! nat i = wbuf ! nat i" if i: "0 \<le> i" "i < numb" for i
  proof -
    have "fileByte s2 inum (c + i) = Some (b ! nat i)"
      using f(3) [OF i] by (simp add: t2)
    moreover have "fileByte s2 inum (c + i) = fileByte s1 inum (c + i)"
      by (simp add: fileByte_def t2)
    moreover have "fileByte s1 inum (c + i) = Some (wbuf ! nat i)"
      using fsWrite_committed [OF w c0 i] by (simp add: c_def inum_def)
    ultimately show ?thesis by simp
  qed
qed

section \<open>Runs of fsWrite and fsRead on which the code departs from its description\<close>

lemma block_arith:
  "(0::int) sdiv BYTESPERBLOCK = 0" "(512::int) sdiv BYTESPERBLOCK = 1"
  "(600::int) sdiv BYTESPERBLOCK = 1" "(100::int) sdiv BYTESPERBLOCK = 0"
  "(10::int) sdiv BYTESPERBLOCK = 0" "(65024::int) sdiv BYTESPERBLOCK = 127"
  "(0::int) smod BYTESPERBLOCK = 0" "(512::int) smod BYTESPERBLOCK = 0"
  "(100::int) smod BYTESPERBLOCK = 100" "(500::int) smod BYTESPERBLOCK = 500"
  "(712::int) sdiv BYTESPERBLOCK = 1" "(612::int) smod BYTESPERBLOCK = 100"
  by (simp_all add: BYTESPERBLOCK_def signed_divide_int_def signed_modulo_int_def)

lemmas collaborator_defs = bfsFdToInum_def bfsFindOFTE_def bfsTell_def bfsGetSize_def
  bfsSetSize_def bfsExtend_def bfsFbnToDbn_def bioRead_def bioWrite_def bfsRead_def memcpy_def

lemma fsWrite_512: "fsWrite (emptyFs 2) 3 512 (replicate 512 7) = Inr (written512, 0)"
proof -
  define g where "g = \<lparr>inumOfFd = (\<lambda>fd. fd), ofteOf = (\<lambda>inum. inum), g_oft = (\<lambda>ofte. 0::32 word),
      isize = (\<lambda>inum. 0)(3 := 512::int),
      fblocks = (\<lambda>inum. [])(3 := [replicate 512 170, replicate 512 (170::byte)]),
      freeBlocks = [],
      fdOfInum = (\<lambda>inum. inum), oftRefs = (\<lambda>ofte. 1), dirInum = (\<lambda>fname. None),
      freeInums = []\<rparr>"
  define w where "w = g\<lparr>fblocks := (\<lambda>inum. [])(3 := [replicate 512 7, replicate 512 (170::byte)])\<rparr>"
  have 1: "fsWrite_grow (emptyFs 2) 3 0 512 1 = Inr g"
    by (simp add: fsWrite_grow_def collaborator_defs emptyFs_def numeral_2_eq_2 g_def)
  have 2: "fsWrite_stage g 3 0 0 1 512 (replicate 512 7) = Inr (replicate 512 7 @ replicate 512 170)"
    by (simp add: fsWrite_stage_def stagingLen_arith collaborator_defs BYTESPERBLOCK_def g_def)
  have 3: "writeLoop g 3 1 0 (replicate 512 7 @ replicate 512 170) 0 = Inr w"
    by (simp add: writeLoop.simps collaborator_defs BYTESPERBLOCK_def g_def w_def)
  have 4: "fsSeek w 3 512 SEEK_CUR = Inr (written512, 0)"
    by (simp add: fsSeek_CUR w_def g_def written512_def)
  show ?thesis
    by (simp add: fsWrite_def bfsFdToInum_def bfsTell_def bfsFindOFTE_def emptyFs_def
        block_arith 1 [unfolded emptyFs_def] 2 3 4)
qed

lemma fsWrite_600: "fsWrite (emptyFs 2) 3 600 (replicate 600 1) = Inr (written600, 0)"
proof -
  define g where "g = \<lparr>inumOfFd = (\<lambda>fd. fd), ofteOf = (\<lambda>inum. inum), g_oft = (\<lambda>ofte. 0::32 word),
      isize = (\<lambda>inum. 0)(3 := 600::int),
      fblocks = (\<lambda>inum. [])(3 := [replicate 512 170, replicate 512 (170::byte)]),
      freeBlocks = [],
      fdOfInum = (\<lambda>inum. inum), oftRefs = (\<lambda>ofte. 1), dirInum = (\<lambda>fname. None),
      freeInums = []\<rparr>"
  define w where "w = g\<lparr>fblocks := (\<lambda>inum. [])(3 := [replicate 512 1, replicate 88 1 @ replicate 424 (170::byte)])\<rparr>"
  have 1: "fsWrite_grow (emptyFs 2) 3 0 600 1 = Inr g"
    by (simp add: fsWrite_grow_def collaborator_defs emptyFs_def numeral_2_eq_2 g_def)
  have 2: "fsWrite_stage g 3 0 0 1 600 (replicate 600 1) = Inr (replicate 600 1 @ replicate 424 170)"
    by (simp add: fsWrite_stage_def stagingLen_arith collaborator_defs BYTESPERBLOCK_def g_def)
  have 3: "writeLoop g 3 1 0 (replicate 600 1 @ replicate 424 170) 0 = Inr w"
    by (simp add: writeLoop.simps collaborator_defs BYTESPERBLOCK_def g_def w_def)
  have 4: "fsSeek w 3 600 SEEK_CUR = Inr (written600, 0)"
    by (simp add: fsSeek_CUR w_def g_def written600_def)
  show ?thesis
    by (simp add: fsWrite_def bfsFdToInum_def bfsTell_def bfsFindOFTE_def emptyFs_def
        block_arith 1 [unfolded emptyFs_def] 2 3 4)
qed

lemma fsWrite_612:
  "fsWrite ((emptyFs 2)\<lparr>g_oft := (g_oft (emptyFs 2))(3 := 100)\<rparr>) 3 612 (replicate 612 7)
     = Inr (written712, 0)"
proof -
  define s where "s = (emptyFs 2)\<lparr>g_oft := (g_oft (emptyFs 2))(3 := 100)\<rparr>"
  define g where "g = \<lparr>inumOfFd = (\<lambda>fd. fd), ofteOf = (\<lambda>inum. inum), g_oft = (\<lambda>ofte. 0::32 word)(3 := 100),
      isize = (\<lambda>inum. 0)(3 := 712::int),
      fblocks = (\<lambda>inum. [])(3 := [replicate 512 170, replicate 512 (170::byte)]),
      freeBlocks = [],
      fdOfInum = (\<lambda>inum. inum), oftRefs = (\<lambda>ofte. 1), dirInum = (\<lambda>fname. None),
      freeInums = []\<rparr>"
  define w where "w = g\<lparr>fblocks := (\<lambda>inum. [])(3 := [replicate 100 170 @ replicate 412 7,
      replicate 200 7 @ replicate 312 (170::byte)])\<rparr>"
  have i: "bfsFdToInum s 3 = 3" "bfsTell s 3 = 100"
    by (simp_all add: collaborator_defs s_def emptyFs_def)
  have 1: "fsWrite_grow s 3 100 612 1 = Inr g"
    by (simp add: fsWrite_grow_def collaborator_defs emptyFs_def numeral_2_eq_2 g_def s_def)
  have 2: "fsWrite_stage g 3 100 0 1 612 (replicate 612 7)
      = Inr (replicate 100 170 @ replicate 612 7 @ replicate 312 170)"
    by (simp add: fsWrite_stage_def stagingLen_arith collaborator_defs BYTESPERBLOCK_def g_def
        signed_modulo_int_def)
  have 3: "writeLoop g 3 1 0 (replicate 100 170 @ replicate 612 7 @ replicate 312 170) 0 = Inr w"
    by (simp add: writeLoop.simps collaborator_defs BYTESPERBLOCK_def g_def w_def)
  have 4: "fsSeek w 3 612 SEEK_CUR = Inr (written712, 0)"
    by (simp add: fsSeek_CUR w_def g_def written712_def)
  have "fsWrite s 3 612 (replicate 612 7) = Inr (written712, 0)"
    by (simp add: fsWrite_def i block_arith 1 2 3 4)
  then show ?thesis by (simp only: s_def)
qed

text \<open>
  C1 fails on the code. On an empty file, after a seek to 100, \<^verbatim>\<open>fsWrite\<close> of 612 bytes \<open>7\<close>
  succeeds and leaves them at positions 100 to 711; after a seek back to 100, \<^verbatim>\<open>fsRead\<close>
  of 612 bytes returns 612, but copies 412 bytes of block 0 and only
  \<open>612 mod 512 = 100\<close> of the 200 bytes of block 1: the last 100 bytes of the caller's
  buffer keep what they held.
\<close>

theorem roundtrip_across_blocks_loses_bytes:
  "fsSeek (emptyFs 2) 3 100 SEEK_SET
     = Inr ((emptyFs 2)\<lparr>g_oft := (g_oft (emptyFs 2))(3 := 100)\<rparr>, 0)
   \<and> fsWrite ((emptyFs 2)\<lparr>g_oft := (g_oft (emptyFs 2))(3 := 100)\<rparr>) 3 612 (replicate 612 7)
       = Inr (written712, 0)
   \<and> fsSeek written712 3 100 SEEK_SET
       = Inr (written712\<lparr>g_oft := (g_oft written712)(3 := 100)\<rparr>, 0)
   \<and> fsRead (written712\<lparr>g_oft := (g_oft written712)(3 := 100)\<rparr>) 3 612 (replicate 612 0)
       = Inr (written712\<lparr>g_oft := (g_oft written712)(3 := 712)\<rparr>,
              replicate 412 7 @ replicate 100 7 @ replicate 100 0, 612)
   \<and> (replicate 412 7 @ replicate 100 7 @ replicate 100 0) ! 512 \<noteq> replicate 612 (7::byte) ! 512"
proof -
  define s where "s = written712\<lparr>g_oft := (g_oft written712)(3 := 100)\<rparr>"
  have k0: "fsSeek (emptyFs 2) 3 100 SEEK_SET
     = Inr ((emptyFs 2)\<lparr>g_oft := (g_oft (emptyFs 2))(3 := 100)\<rparr>, 0)"
    by (simp add: fsSeek_def SEEK_SET_def bfsFdToInum_def bfsFindOFTE_def emptyFs_def)
  have k: "fsSeek written712 3 100 SEEK_SET = Inr (s, 0)"
    by (simp add: fsSeek_def SEEK_SET_def bfsFdToInum_def bfsFindOFTE_def written712_def s_def)
  have i: "bfsFdToInum s 3 = 3" "bfsTell s 3 = 100" "bfsGetSize s 3 = 712"
    by (simp_all add: collaborator_defs s_def written712_def)
  have 1: "readLoop s 3 100 612 0 1 0 (replicate 612 0) 0
      = Inr (replicate 412 7 @ replicate 100 7 @ replicate 100 0, 512)"
    by (simp add: readLoop.simps collaborator_defs BYTESPERBLOCK_def s_def written712_def
        signed_modulo_int_def)
  have c: "fsRead_copy s 3 612 (replicate 612 0)
      = Inr (replicate 412 7 @ replicate 100 7 @ replicate 100 0, 512, 612)"
    by (simp add: fsRead_copy_def i32_def i block_arith 1)
  have k2: "fsSeek s 3 612 SEEK_CUR = Inr (written712\<lparr>g_oft := (g_oft written712)(3 := 712)\<rparr>, 0)"
    by (simp add: fsSeek_CUR s_def written712_def)
  have r: "fsRead s 3 612 (replicate 612 0)
      = Inr (written712\<lparr>g_oft := (g_oft written712)(3 := 712)\<rparr>,
             replicate 412 7 @ replicate 100 7 @ replicate 100 0, 612)"
    by (simp add: fsRead_def c k2)
  have ne: "(replicate 412 7 @ replicate 100 7 @ replicate 100 0) ! 512 \<noteq> replicate 612 (7::byte) ! 512"
    by (simp add: nth_append)
  from k0 fsWrite_612 k r ne show ?thesis by (simp only: s_def simp_thms)
qed

text \<open>
  A read of one whole block at a block boundary. On an empty file, \<^verbatim>\<open>fsWrite\<close> of 512 bytes
  at cursor 0 and \<^verbatim>\<open>fsSeek\<close> back to 0 succeed; \<^verbatim>\<open>fsRead\<close> of 512 bytes into a buffer of
  512 bytes then copies block 0 and, because \<open>right = 512 / 512 = 1\<close>, all of block 1 as
  well, past the end of the buffer. With a buffer of 1024 bytes the same call deposits 1024
  bytes, the second half being the stale content of block 1.
\<close>

lemma read_of_one_block_overruns:
  "fsWrite (emptyFs 2) 3 512 (replicate 512 7) = Inr (written512, 0)
   \<and> fsSeek written512 3 0 SEEK_SET = Inr (written512\<lparr>g_oft := (g_oft written512)(3 := 0)\<rparr>, 0)
   \<and> fsRead (written512\<lparr>g_oft := (g_oft written512)(3 := 0)\<rparr>) 3 512 (replicate 512 0)
       = Inl EOVERRUN
   \<and> fsRead_copy (written512\<lparr>g_oft := (g_oft written512)(3 := 0)\<rparr>) 3 512 (replicate 1024 0)
       = Inr (replicate 512 7 @ replicate 512 170, 1024, 512)"
proof -
  define s where "s = written512\<lparr>g_oft := (g_oft written512)(3 := 0)\<rparr>"
  have k: "fsSeek written512 3 0 SEEK_SET = Inr (s, 0)"
    by (simp add: fsSeek_def SEEK_SET_def bfsFdToInum_def bfsFindOFTE_def written512_def s_def)
  have i: "bfsFdToInum s 3 = 3" "bfsTell s 3 = 0" "bfsGetSize s 3 = 512"
    by (simp_all add: collaborator_defs s_def written512_def)
  have 1: "readLoop s 3 0 512 0 1 0 (replicate 512 0) 0 = Inl EOVERRUN"
    by (simp add: readLoop.simps collaborator_defs BYTESPERBLOCK_def s_def written512_def
        signed_modulo_int_def)
  have 2: "readLoop s 3 0 512 0 1 0 (replicate 1024 0) 0
      = Inr (replicate 512 7 @ replicate 512 170, 1024)"
    by (simp add: readLoop.simps collaborator_defs BYTESPERBLOCK_def s_def written512_def
        signed_modulo_int_def)
  have c1: "fsRead_copy s 3 512 (replicate 512 0) = Inl EOVERRUN"
    by (simp add: fsRead_copy_def i32_def i block_arith 1)
  have c2: "fsRead_copy s 3 512 (replicate 1024 0) = Inr (replicate 512 7 @ replicate 512 170, 1024, 512)"
    by (simp add: fsRead_copy_def i32_def i block_arith 2)
  have r: "fsRead s 3 512 (replicate 512 0) = Inl EOVERRUN"
    by (simp add: fsRead_def c1)
  from fsWrite_512 k r c2 show ?thesis by (simp only: s_def simp_thms)
qed

text \<open>
  C2 fails on the code, on the example of the specification: a file of 600 bytes, the
  cursor at 100, a request for 1000 bytes. \<^verbatim>\<open>fsRead\<close> clamps the count to 500 and returns
  500, but copies 412 bytes of block 0 and then \<open>500 mod 512 = 500\<close> bytes of block 1, 912
  bytes in all; the last 412 of them lie beyond the size of the file.
\<close>

theorem fsRead_copies_more_than_it_returns:
  "fsWrite (emptyFs 2) 3 600 (replicate 600 1) = Inr (written600, 0)
   \<and> fsSeek written600 3 100 SEEK_SET
       = Inr (written600\<lparr>g_oft := (g_oft written600)(3 := 100)\<rparr>, 0)
   \<and> fsRead_copy (written600\<lparr>g_oft := (g_oft written600)(3 := 100)\<rparr>) 3 1000 (replicate 1000 0)
       = Inr (replicate 412 1 @ replicate 88 1 @ replicate 412 170 @ replicate 88 0, 912, 500)
   \<and> fsRead (written600\<lparr>g_oft := (g_oft written600)(3 := 100)\<rparr>) 3 1000 (replicate 1000 0)
       = Inr (written600\<lparr>g_oft := (g_oft written600)(3 := 600)\<rparr>,
              replicate 412 1 @ replicate 88 1 @ replicate 412 170 @ replicate 88 0, 500)"
proof -
  define s where "s = written600\<lparr>g_oft := (g_oft written600)(3 := 100)\<rparr>"
  have k: "fsSeek written600 3 100 SEEK_SET = Inr (s, 0)"
    by (simp add: fsSeek_def SEEK_SET_def bfsFdToInum_def bfsFindOFTE_def written600_def s_def)
  have i: "bfsFdToInum s 3 = 3" "bfsTell s 3 = 100" "bfsGetSize s 3 = 600"
    by (simp_all add: collaborator_defs s_def written600_def)
  have 1: "readLoop s 3 100 500 0 1 0 (replicate 1000 0) 0
      = Inr (replicate 412 1 @ replicate 88 1 @ replicate 412 170 @ replicate 88 0, 912)"
    by (simp add: readLoop.simps collaborator_defs BYTESPERBLOCK_def s_def written600_def
        signed_modulo_int_def)
  have c: "fsRead_copy s 3 1000 (replicate 1000 0)
      = Inr (replicate 412 1 @ replicate 88 1 @ replicate 412 170 @ replicate 88 0, 912, 500)"
    by (simp add: fsRead_copy_def i32_def i block_arith 1)
  have k2: "fsSeek s 3 500 SEEK_CUR = Inr (written600\<lparr>g_oft := (g_oft written600)(3 := 600)\<rparr>, 0)"
    by (simp add: fsSeek_CUR s_def written600_def)
  have r: "fsRead s 3 1000 (replicate 1000 0)
      = Inr (written600\<lparr>g_oft := (g_oft written600)(3 := 600)\<rparr>,
              replicate 412 1 @ replicate 88 1 @ replicate 412 170 @ replicate 88 0, 500)"
    by (simp add: fsRead_def c k2)
  from fsWrite_600 k c r show ?thesis by (simp only: s_def simp_thms)
qed

text \<open>
  C3 fails on the code when the cursor is beyond the size of the file. With a file of 10
  bytes, \<^verbatim>\<open>fsSeek\<close> to 600 succeeds; \<^verbatim>\<open>fsRead\<close> of 5 bytes then clamps the count to
  \<open>10 - 600 = -590\<close>, skips the loop (\<open>left = 1\<close>, \<open>right = 0\<close>) and calls \<^verbatim>\<open>fsSeek\<close> with
  the offset \<open>-590\<close>, which aborts with \<^verbatim>\<open>EBADCURS\<close>.
\<close>

theorem fsRead_beyond_size_aborts:
  "fsSeek (uniformFs 0 10 [replicate 512 1]) 3 600 SEEK_SET
     = Inr ((uniformFs 0 10 [replicate 512 1])\<lparr>g_oft := (g_oft (uniformFs 0 10 [replicate 512 1]))(3 := 600)\<rparr>, 0)
   \<and> fsRead_copy ((uniformFs 0 10 [replicate 512 1])\<lparr>g_oft := (g_oft (uniformFs 0 10 [replicate 512 1]))(3 := 600)\<rparr>)
        3 5 (replicate 5 0) = Inr (replicate 5 0, 0, - 590)
   \<and> fsRead ((uniformFs 0 10 [replicate 512 1])\<lparr>g_oft := (g_oft (uniformFs 0 10 [replicate 512 1]))(3 := 600)\<rparr>)
        3 5 (replicate 5 0) = Inl EBADCURS"
proof -
  define s where "s = (uniformFs 0 10 [replicate 512 1])\<lparr>g_oft := (g_oft (uniformFs 0 10 [replicate 512 1]))(3 := 600)\<rparr>"
  have k: "fsSeek (uniformFs 0 10 [replicate 512 1]) 3 600 SEEK_SET = Inr (s, 0)"
    by (simp add: fsSeek_def SEEK_SET_def bfsFdToInum_def bfsFindOFTE_def s_def uniformFs_def)
  have i: "bfsFdToInum s 3 = 3" "bfsTell s 3 = 600" "bfsGetSize s 3 = 10"
    by (simp_all add: collaborator_defs s_def uniformFs_def)
  have d: "(600::int) sdiv BYTESPERBLOCK = 1"
    by (simp add: BYTESPERBLOCK_def signed_divide_int_def)
  have 1: "readLoop s 3 600 (- 590) 1 0 1 (replicate 5 0) 0 = Inr (replicate 5 0, 0)"
    by (simp add: readLoop.simps)
  have c: "fsRead_copy s 3 5 (replicate 5 0) = Inr (replicate 5 0, 0, - 590)"
    by (simp add: fsRead_copy_def i32_def i d block_arith 1)
  have r: "fsRead s 3 5 (replicate 5 0) = Inl EBADCURS"
    by (simp add: fsRead_def c fsSeek_CUR)
  from k c r show ?thesis by (simp only: s_def simp_thms)
qed

text \<open>
  C8 fails on the code for a span of 128 blocks. A write of \<open>127 * 512 = 65024\<close> bytes at
  cursor 0 has \<open>left = 0\<close> and \<open>right = 127\<close>; \<^verbatim>\<open>i8 len\<close> receives 128 and holds \<open>-128\<close>, so
  the staging region is declared with \<open>-128 * 512\<close> bytes instead of 128 blocks, and the
  test \<^verbatim>\<open>len > 1\<close> that guards the read of the last block is false.
\<close>

theorem fsWrite_span_of_128_blocks:
  "stagingLen 0 127 = - 128
   \<and> stagingLen 0 127 * BYTESPERBLOCK \<noteq> (127 - 0 + 1) * BYTESPERBLOCK
   \<and> fsWrite (emptyFs 128) 3 65024 (replicate 65024 7) = Inl EBADVLA"
proof -
  have l: "stagingLen 0 127 = - 128" by (simp add: stagingLen_arith)
  have st: "fsWrite_stage s1 3 0 0 127 65024 (replicate 65024 7) = Inl EBADVLA" for s1
    by (simp add: fsWrite_stage_def l BYTESPERBLOCK_def)
  obtain s1 where g: "fsWrite_grow (emptyFs 128) 3 0 65024 127 = Inr s1"
    by (simp add: fsWrite_grow_def bfsGetSize_def bfsExtend_def emptyFs_def)
  have i: "bfsFdToInum (emptyFs 128) 3 = 3" "bfsTell (emptyFs 128) 3 = 0"
    by (simp_all add: collaborator_defs emptyFs_def)
  have w: "fsWrite (emptyFs 128) 3 65024 (replicate 65024 7) = Inl EBADVLA"
    by (simp add: fsWrite_def i block_arith g st)
  from l w show ?thesis by (simp add: BYTESPERBLOCK_def)
qed

end
